theory Spec2Isabelle
  imports Complex_Main "HOL-Library.Sublist" "HOL-Library.Word"
begin

unbundle bit_operations_syntax

section \<open>The traffic-analysis pipeline of \<^verbatim>\<open>examples/traffic_analysis/script.py\<close>\<close>

text \<open>
  The script wires four collaborators into a per-frame pipeline, \<^verbatim>\<open>process_frame\<close>, and
  drives it over a video in \<^verbatim>\<open>process_video\<close>, which either writes the annotated frames
  into a video file or shows them in a window until the key \<^verbatim>\<open>q\<close> is pressed.

  The embedding keeps the script's two functions as they are written. What the script
  calls but does not define is a field of the record \<open>env\<close>: the YOLO network and
  OpenCV's window functions, which are outside the repository, and the library's
  tracker, annotator and video sink alike. A theorem about \<open>process_frame\<close> or
  \<open>process_video\<close> then holds for every behaviour of these collaborators, including
  every way in which they raise. The tracker and the detection model as the
  specification describes them are defined on their own, for the two claims that are
  about them; they fit the corresponding fields of \<open>env\<close>.
\<close>

subsection \<open>Data\<close>

text \<open>
  A frame is a numpy array of bytes. Arrays are mutable and shared by reference, so a
  frame is an address into a store of buffers; \<^verbatim>\<open>frame.copy()\<close> allocates a new buffer.
  The store is a list and an address an index into it: a new buffer is appended, hence
  its address is fresh by construction.
\<close>

type_synonym pixels = "8 word list"
type_synonym addr = nat
type_synonym store = "pixels list"

definition alloc :: "store \<Rightarrow> pixels \<Rightarrow> addr \<times> store" where
  "alloc h px = (length h, h @ [px])"

text \<open>\<^verbatim>\<open>frame.copy()\<close>: a new array with the contents of \<open>frame\<close>.\<close>

definition copy :: "store \<Rightarrow> addr \<Rightarrow> addr \<times> store" where
  "copy h frame = alloc h (h ! frame)"

type_synonym box = "real \<times> real \<times> real \<times> real"

text \<open>
  Modelled from the spec: the class \<^verbatim>\<open>sv.Detections\<close> is not among the sources. A
  Detection is a bounding box, a confidence score, an optional class identifier and an
  optional track identifier (absent until the Tracker assigns it); a DetectionSet is an
  ordered collection of Detections.
\<close>

record detection =
  xyxy :: box
  confidence :: "real option"
  class_id :: "int option"
  tracker_id :: "int option"

text \<open>One box of the network's result: coordinates, confidence score, class index.\<close>

record raw_box =
  rb_xyxy :: box
  rb_conf :: real
  rb_cls :: int

text \<open>
  Modelled from the spec: \<^verbatim>\<open>sv.Detections.from_ultralytics\<close> is not among the sources.
  It normalises the network's per-box coordinates, confidence scores and class indices
  into a DetectionSet, one Detection per box, in the same order, with no track identifier.
\<close>

definition from_ultralytics :: "raw_box list \<Rightarrow> detection list" where
  "from_ultralytics results =
     map (\<lambda>r. \<lparr>xyxy = rb_xyxy r, confidence = Some (rb_conf r),
                class_id = Some (rb_cls r), tracker_id = None\<rparr>) results"

text \<open>\<^verbatim>\<open>np.zeros(n)\<close>: an array of \<open>n\<close> zeros.\<close>

definition zeros :: "nat \<Rightarrow> int list" where
  "zeros n = replicate n 0"

text \<open>
  \<^verbatim>\<open>detections.class_id = values\<close>: the assignment of an array of class identifiers to the
  set, the i-th value to the i-th Detection.
\<close>

definition set_class_id :: "detection list \<Rightarrow> int list \<Rightarrow> detection list" where
  "set_class_id detections values =
     map (\<lambda>(d, v). d\<lparr>class_id := Some v\<rparr>) (zip detections values)"

text \<open>
  Iterating over a DetectionSet yields, for each Detection in order, the tuple
  \<^verbatim>\<open>(xyxy, mask, confidence, class_id, tracker_id)\<close>; the script carries no masks.
\<close>

definition iter_detections ::
  "detection list \<Rightarrow> (box \<times> unit option \<times> real option \<times> int option \<times> int option) list" where
  "iter_detections detections =
     map (\<lambda>d. (xyxy d, None, confidence d, class_id d, tracker_id d)) detections"

text \<open>Python's \<^verbatim>\<open>str\<close> of an integer: decimal digits, with a minus sign when negative.\<close>

fun digits :: "nat \<Rightarrow> string" where
  "digits n = (if n < 10 then [''0123456789'' ! n]
               else digits (n div 10) @ [''0123456789'' ! (n mod 10)])"

declare digits.simps [simp del]

definition str_int :: "int \<Rightarrow> string" where
  "str_int i = (if i < 0 then CHR ''-'' # digits (nat (- i)) else digits (nat i))"

text \<open>
  What an f-string writes for \<^verbatim>\<open>{tracker_id}\<close>: the decimal number, or \<^verbatim>\<open>None\<close> for
  an absent identifier.
\<close>

definition format_id :: "int option \<Rightarrow> string" where
  "format_id t = (case t of None \<Rightarrow> ''None'' | Some i \<Rightarrow> str_int i)"

text \<open>
  Lines 56 to 59 of the script:
  \<^verbatim>\<open>labels = [f"#{tracker_id}" for _, _, confidence, class_id, tracker_id in detections]\<close>
\<close>

definition make_labels :: "detection list \<Rightarrow> string list" where
  "make_labels detections =
     map (\<lambda>(_, _, confidence, class_id, tracker_id). CHR ''#'' # format_id tracker_id)
       (iter_detections detections)"

subsection \<open>Collaborators, errors and events\<close>

text \<open>
  Every call of the script may raise. An exception is a value of type \<open>error\<close>, and a
  call that may raise returns \<open>Inl\<close> of it. The script has no \<^verbatim>\<open>try\<close>: the only construct
  in it that reacts to an exception is the \<^verbatim>\<open>with\<close> statement around the file sink.
\<close>

datatype error =
    ModelLoadFailure
  | SourceUnreadable
  | DetectionFailure
  | TrackingFailure
  | AnnotationFailure
  | SinkConfigurationError
  | SinkWriteFailure
  | DisplayFailure

record video_info =
  width :: nat
  height :: nat
  fps :: nat
  total_frames :: nat

text \<open>
  The collaborators of one run. \<open>'s\<close> is the tracker's internal state.
  \<^item> \<open>load_model\<close>: \<^verbatim>\<open>YOLO(source_weights_path)\<close>, which may raise;
  \<^item> \<open>open_video\<close>: lines 19 and 20, the metadata of the source video and the finite
    sequence of its decoded frames, or an exception when the file cannot be read;
  \<^item> \<open>model\<close>: the call \<^verbatim>\<open>model(frame, verbose=False, conf=..., iou=...)[0]\<close>, a function of
    the frame's contents and the two thresholds; it does not write to the frame;
  \<^item> \<open>tracker_update\<close>: \<^verbatim>\<open>tracker.update_with_detections\<close>, from the tracker's state and
    a DetectionSet to a DetectionSet and the next state;
  \<^item> \<open>draw\<close>: what \<^verbatim>\<open>box_annotator.annotate\<close> leaves in the buffer it is given, which it
    draws on in place, and the exception it raised, if any;
  \<^item> \<open>sink_enter\<close>: opening the video writer for the target path and the metadata;
  \<^item> \<open>write_frame\<close>: \<^verbatim>\<open>sink.write_frame\<close>; \<open>imshow\<close>: \<^verbatim>\<open>cv2.imshow\<close>;
  \<^item> \<open>wait_key\<close>: the key code \<^verbatim>\<open>cv2.waitKey(delay)\<close> returns at the n-th poll of the run,
    \<open>-1\<close> when no key was pressed within the delay.
\<close>

record 's env =
  load_model :: "error option"
  open_video :: "error + video_info \<times> pixels list"
  model :: "pixels \<Rightarrow> real \<Rightarrow> real \<Rightarrow> error + raw_box list"
  tracker_update :: "'s \<Rightarrow> detection list \<Rightarrow> error + detection list \<times> 's"
  draw :: "pixels \<Rightarrow> detection list \<Rightarrow> string list \<Rightarrow> pixels \<times> error option"
  sink_enter :: "string \<Rightarrow> video_info \<Rightarrow> error option"
  write_frame :: "pixels \<Rightarrow> error option"
  imshow :: "pixels \<Rightarrow> error option"
  wait_key :: "nat \<Rightarrow> int \<Rightarrow> int"

text \<open>
  The calls a run makes, in the order it makes them. An event is recorded when the call
  is made, whether or not it then raises. \<open>SinkEnter\<close> is the attempt to acquire the video
  writer on entering the \<^verbatim>\<open>with\<close> statement, \<open>SinkExit\<close> its release on leaving it.
\<close>

datatype event =
    SinkEnter string
  | SinkExit
  | FrameFetched nat addr
  | ModelCalled addr real real
  | TrackerUpdated "detection list"
  | Annotated addr "detection list" "string list"
  | FrameWritten addr
  | FrameShown addr
  | KeyPolled int
  | WindowsDestroyed

text \<open>The mutable state of a run: the store of frame buffers and the tracker.\<close>

record 's world =
  heap :: store
  tracker_state :: 's

subsection \<open>\<^verbatim>\<open>process_frame\<close>\<close>

text \<open>
  \<^verbatim>\<open>box_annotator.annotate(scene=..., detections=..., labels=...)\<close> draws on the buffer
  \<open>scene\<close> in place and returns that same buffer.
\<close>

definition annotate ::
  "'s env \<Rightarrow> store \<Rightarrow> addr \<Rightarrow> detection list \<Rightarrow> string list \<Rightarrow> (error + addr) \<times> store" where
  "annotate env h scene detections labels =
     (case draw env (h ! scene) detections labels of
        (px, None) \<Rightarrow> (Inr scene, h[scene := px])
      | (px, Some e) \<Rightarrow> (Inl e, h[scene := px]))"

text \<open>Lines 50 to 53: the network's result for the frame, as a DetectionSet.\<close>

definition detection_step ::
  "'s env \<Rightarrow> pixels \<Rightarrow> real \<Rightarrow> real \<Rightarrow> error + detection list" where
  "detection_step env px confidence_threshold iou_threshold =
     (case model env px confidence_threshold iou_threshold of
        Inl e \<Rightarrow> Inl e
      | Inr results \<Rightarrow> Inr (from_ultralytics results))"

text \<open>
  Lines 42 to 63. The result is the list of calls made, the address of the annotated
  frame or the exception raised, and the state left behind.
\<close>

definition process_frame ::
  "'s env \<Rightarrow> 's world \<Rightarrow> addr \<Rightarrow> real \<Rightarrow> real \<Rightarrow> event list \<times> (error + addr) \<times> 's world" where
  "process_frame env w frame confidence_threshold iou_threshold =
     (case detection_step env (heap w ! frame) confidence_threshold iou_threshold of
        Inl e \<Rightarrow> ([ModelCalled frame confidence_threshold iou_threshold], Inl e, w)
      | Inr detections0 \<Rightarrow>
          let detections1 = set_class_id detections0 (zeros (length detections0)) in
          (case tracker_update env (tracker_state w) detections1 of
             Inl e \<Rightarrow>
               ([ModelCalled frame confidence_threshold iou_threshold,
                 TrackerUpdated detections1], Inl e, w)
           | Inr (detections, t) \<Rightarrow>
               let labels = make_labels detections;
                   (scene, h1) = copy (heap w) frame;
                   (r, h2) = annotate env h1 scene detections labels
               in ([ModelCalled frame confidence_threshold iou_threshold,
                    TrackerUpdated detections1,
                    Annotated scene detections labels],
                   r, \<lparr>heap = h2, tracker_state = t\<rparr>)))"

subsection \<open>\<^verbatim>\<open>process_video\<close>\<close>

text \<open>
  The loop of lines 24 to 29 over the frames still to come; \<open>n\<close> is the index of the next
  frame. The generator hands out each decoded frame as a new array. \<^verbatim>\<open>tqdm\<close> only
  reports progress and passes the frames through.
\<close>

fun file_loop ::
  "'s env \<Rightarrow> 's world \<Rightarrow> real \<Rightarrow> real \<Rightarrow> nat \<Rightarrow> pixels list \<Rightarrow>
     event list \<times> (error + unit) \<times> 's world" where
  "file_loop env w ct it n [] = ([], Inr (), w)"
| "file_loop env w ct it n (px # rest) =
     (let (frame, h) = alloc (heap w) px in
      case process_frame env (w\<lparr>heap := h\<rparr>) frame ct it of
        (ev, Inl e, w1) \<Rightarrow> (FrameFetched n frame # ev, Inl e, w1)
      | (ev, Inr annotated_frame, w1) \<Rightarrow>
          (case write_frame env (heap w1 ! annotated_frame) of
             Some e \<Rightarrow>
               (FrameFetched n frame # ev @ [FrameWritten annotated_frame], Inl e, w1)
           | None \<Rightarrow>
               (case file_loop env w1 ct it (Suc n) rest of
                  (ev', r, w2) \<Rightarrow>
                    (FrameFetched n frame # ev @ [FrameWritten annotated_frame] @ ev',
                     r, w2))))"

text \<open>
  Line 37: \<^verbatim>\<open>cv2.waitKey(1) & 0xFF == ord('q')\<close>. In Python \<^verbatim>\<open>&\<close> binds tighter than
  \<^verbatim>\<open>==\<close>, and integers are unbounded, with \<^verbatim>\<open>&\<close> on the two's complement.
\<close>

definition quit_signal :: "int \<Rightarrow> bool" where
  "quit_signal key \<longleftrightarrow> key AND 0xFF = of_char CHR ''q''"

text \<open>
  The loop of lines 31 to 38; \<open>n\<close> is the index of the next frame, which is also the
  number of polls made so far. The \<^verbatim>\<open>break\<close> leaves the loop without fetching a frame.
\<close>

fun display_loop ::
  "'s env \<Rightarrow> 's world \<Rightarrow> real \<Rightarrow> real \<Rightarrow> nat \<Rightarrow> pixels list \<Rightarrow>
     event list \<times> (error + unit) \<times> 's world" where
  "display_loop env w ct it n [] = ([], Inr (), w)"
| "display_loop env w ct it n (px # rest) =
     (let (frame, h) = alloc (heap w) px in
      case process_frame env (w\<lparr>heap := h\<rparr>) frame ct it of
        (ev, Inl e, w1) \<Rightarrow> (FrameFetched n frame # ev, Inl e, w1)
      | (ev, Inr annotated_frame, w1) \<Rightarrow>
          (case imshow env (heap w1 ! annotated_frame) of
             Some e \<Rightarrow>
               (FrameFetched n frame # ev @ [FrameShown annotated_frame], Inl e, w1)
           | None \<Rightarrow>
               if quit_signal (wait_key env n 1)
               then (FrameFetched n frame # ev @ [FrameShown annotated_frame, KeyPolled 1],
                     Inr (), w1)
               else
                 (case display_loop env w1 ct it (Suc n) rest of
                    (ev', r, w2) \<Rightarrow>
                      (FrameFetched n frame # ev @ [FrameShown annotated_frame, KeyPolled 1]
                         @ ev', r, w2))))"

text \<open>
  Modelled from the spec: the class \<^verbatim>\<open>sv.VideoSink\<close> is not among the sources. It is a
  scoped video-writer resource bound to the video's metadata: entering it acquires the
  writer (or fails), leaving it releases the writer, which finalises the container.
  The \<^verbatim>\<open>with\<close> statement of line 23 is Python's: when entering raises, the body does not
  run and nothing is left to release; otherwise the body runs and the sink is left on
  every way out of the body, a normal end as well as an exception, which leaving the
  sink does not suppress.
\<close>

definition with_video_sink ::
  "'s env \<Rightarrow> string \<Rightarrow> video_info \<Rightarrow> 's world \<Rightarrow>
     ('s world \<Rightarrow> event list \<times> (error + unit) \<times> 's world) \<Rightarrow>
     event list \<times> (error + unit) \<times> 's world" where
  "with_video_sink env target_path info w body =
     (case sink_enter env target_path info of
        Some e \<Rightarrow> ([SinkEnter target_path], Inl e, w)
      | None \<Rightarrow>
          (case body w of
             (ev, r, w1) \<Rightarrow> (SinkEnter target_path # ev @ [SinkExit], r, w1)))"

text \<open>
  Lines 9 to 39. \<^verbatim>\<open>if target_video_path:\<close> tests the truth value of the argument: \<^verbatim>\<open>None\<close>
  and the empty string both select the display.
\<close>

definition process_video ::
  "'s env \<Rightarrow> 's world \<Rightarrow> string option \<Rightarrow> real \<Rightarrow> real \<Rightarrow>
     event list \<times> (error + unit) \<times> 's world" where
  "process_video env w target_video_path confidence_threshold iou_threshold =
     (case load_model env of
        Some e \<Rightarrow> ([], Inl e, w)
      | None \<Rightarrow>
          (case open_video env of
             Inl e \<Rightarrow> ([], Inl e, w)
           | Inr (info, frames) \<Rightarrow>
               (case target_video_path of
                  Some (c # cs) \<Rightarrow>
                    with_video_sink env (c # cs) info w
                      (\<lambda>w. file_loop env w confidence_threshold iou_threshold 0 frames)
                | _ \<Rightarrow>
                    (case display_loop env w confidence_threshold iou_threshold 0 frames of
                       (ev, Inl e, w1) \<Rightarrow> (ev, Inl e, w1)
                     | (ev, Inr u, w1) \<Rightarrow> (ev @ [WindowsDestroyed], Inr u, w1)))))"

subsection \<open>Reading a run's list of calls\<close>

text \<open>
  The three stages of the pipeline that the ordering of a run is about: fetching frame
  \<open>n\<close> from the source, the tracker's update, and handing the annotated frame to the sink
  (the file writer or the window).
\<close>

datatype stage = Fetch nat | Update | Sink

fun stage_of :: "event \<Rightarrow> stage list" where
  "stage_of (FrameFetched n a) = [Fetch n]"
| "stage_of (TrackerUpdated ds) = [Update]"
| "stage_of (FrameWritten a) = [Sink]"
| "stage_of (FrameShown a) = [Sink]"
| "stage_of _ = []"

definition stages :: "event list \<Rightarrow> stage list" where
  "stages tr = concat (map stage_of tr)"

text \<open>What one frame's complete pass through the pipeline looks like.\<close>

definition block :: "nat \<Rightarrow> stage list" where
  "block n = [Fetch n, Update, Sink]"

text \<open>The indices of the frames fetched, and the delays of the key polls, in order.\<close>

fun fetched :: "event list \<Rightarrow> nat list" where
  "fetched [] = []"
| "fetched (FrameFetched n a # tr) = n # fetched tr"
| "fetched (_ # tr) = fetched tr"

fun polls :: "event list \<Rightarrow> int list" where
  "polls [] = []"
| "polls (KeyPolled d # tr) = d # polls tr"
| "polls (_ # tr) = polls tr"

fun shown :: "event list \<Rightarrow> addr list" where
  "shown [] = []"
| "shown (FrameShown a # tr) = a # shown tr"
| "shown (_ # tr) = shown tr"

text \<open>The DetectionSets the tracker's update was called with, in order.\<close>

fun updates :: "event list \<Rightarrow> detection list list" where
  "updates [] = []"
| "updates (TrackerUpdated ds # tr) = ds # updates tr"
| "updates (_ # tr) = updates tr"

text \<open>
  What lines 50 to 54 hand to the tracker for a frame of contents \<open>px\<close>: the network's
  result as a DetectionSet with the class identifiers overwritten, or the exception of
  the detection step.
\<close>

definition tracker_input :: "'s env \<Rightarrow> real \<Rightarrow> real \<Rightarrow> pixels \<Rightarrow> error + detection list" where
  "tracker_input env confidence_threshold iou_threshold px =
     (case detection_step env px confidence_threshold iou_threshold of
        Inl e \<Rightarrow> Inl e
      | Inr detections \<Rightarrow> Inr (set_class_id detections (zeros (length detections))))"

text \<open>
  The tracker's state after its update has been applied to the given DetectionSets one
  after the other, each to the state the one before left.
\<close>

fun tracker_after :: "'s env \<Rightarrow> 's \<Rightarrow> detection list list \<Rightarrow> 's" where
  "tracker_after env s [] = s"
| "tracker_after env s (ds # rest) =
     (case tracker_update env s ds of
        Inl e \<Rightarrow> s
      | Inr (out, s') \<Rightarrow> tracker_after env s' rest)"

text \<open>
  \<^verbatim>\<open>process_frame\<close> and \<^verbatim>\<open>cv2.imshow\<close> return normally on each of the frames 0 to \<open>k\<close>
  of the given sequence, started in state \<open>w\<close>. This is a condition on the collaborators
  and the video only: no key poll enters it.
\<close>

fun frames_succeed ::
  "'s env \<Rightarrow> 's world \<Rightarrow> real \<Rightarrow> real \<Rightarrow> nat \<Rightarrow> pixels list \<Rightarrow> bool" where
  "frames_succeed env w ct it k [] = False"
| "frames_succeed env w ct it k (px # rest) =
     (let (frame, h) = alloc (heap w) px in
      case process_frame env (w\<lparr>heap := h\<rparr>) frame ct it of
        (ev, Inl e, w1) \<Rightarrow> False
      | (ev, Inr annotated_frame, w1) \<Rightarrow>
          imshow env (heap w1 ! annotated_frame) = None \<and>
          (case k of 0 \<Rightarrow> True | Suc k' \<Rightarrow> frames_succeed env w1 ct it k' rest))"

text \<open>Collaborators of which no stage of the per-frame pipeline and no display call raises.\<close>

definition reliable :: "'s env \<Rightarrow> bool" where
  "reliable env \<longleftrightarrow>
     (\<forall>px c i. \<exists>results. model env px c i = Inr results) \<and>
     (\<forall>s ds. \<exists>out. tracker_update env s ds = Inr out) \<and>
     (\<forall>px ds ls. snd (draw env px ds ls) = None) \<and>
     (\<forall>px. imshow env px = None)"

text \<open>The DetectionSet of a detection step, empty when the step raised.\<close>

definition detections_of :: "error + detection list \<Rightarrow> detection set" where
  "detections_of r = (case r of Inl e \<Rightarrow> {} | Inr ds \<Rightarrow> set ds)"

subsection \<open>The tracker, as the specification describes it\<close>

text \<open>
  Modelled from the spec: \<^verbatim>\<open>sv.ByteTrack\<close> and its \<^verbatim>\<open>update_with_detections\<close> are not
  among the sources. The tracker's state is a mapping from track identifier to Track
  and an identifier counter that only grows. A Track holds what is needed to associate
  it again, here its last box, and the number of consecutive updates in which it was
  not matched. The association heuristic is an external algorithm: for one Detection
  it names an existing Track, asks for a new Track, or finds no Track to associate the
  Detection with; it may raise.
\<close>

record track =
  last_box :: box
  lost :: nat

record tracker =
  tracks :: "int \<rightharpoonup> track"
  counter :: int

datatype verdict = Matched int | Spawn | Unassociated

type_synonym heuristic = "(int \<rightharpoonup> track) \<Rightarrow> detection \<Rightarrow> error + verdict"

text \<open>Initial state: no Track, the counter at its start value.\<close>

definition new_tracker :: tracker where
  "new_tracker = \<lparr>tracks = Map.empty, counter = 1\<rparr>"

text \<open>
  Each incoming Detection in turn is paired with the live Track the heuristic names, or
  with a new Track under a freshly allocated identifier; a Detection that is paired
  with no live Track is dropped from the output.
\<close>

fun associate ::
  "heuristic \<Rightarrow> tracker \<Rightarrow> detection list \<Rightarrow> error + detection list \<times> tracker" where
  "associate h T [] = Inr ([], T)"
| "associate h T (d # ds) =
     (case h (tracks T) d of
        Inl e \<Rightarrow> Inl e
      | Inr Unassociated \<Rightarrow> associate h T ds
      | Inr (Matched i) \<Rightarrow>
          (case tracks T i of
             None \<Rightarrow> associate h T ds
           | Some t \<Rightarrow>
               (case associate h
                       (T\<lparr>tracks := (tracks T)(i \<mapsto> \<lparr>last_box = xyxy d, lost = 0\<rparr>)\<rparr>) ds of
                  Inl e \<Rightarrow> Inl e
                | Inr (out, T') \<Rightarrow> Inr (d\<lparr>tracker_id := Some i\<rparr> # out, T')))
      | Inr Spawn \<Rightarrow>
          (case associate h
                  (T\<lparr>tracks := (tracks T)(counter T \<mapsto> \<lparr>last_box = xyxy d, lost = 0\<rparr>),
                     counter := counter T + 1\<rparr>) ds of
             Inl e \<Rightarrow> Inl e
           | Inr (out, T') \<Rightarrow> Inr (d\<lparr>tracker_id := Some (counter T)\<rparr> # out, T')))"

text \<open>
  One update: all Tracks age by one call, the Detections are associated (a Track that
  is matched or created starts again at zero), and the Tracks unmatched for more than
  \<open>max_lost\<close> consecutive calls are retired.
\<close>

definition age :: "(int \<rightharpoonup> track) \<Rightarrow> (int \<rightharpoonup> track)" where
  "age m = (\<lambda>i. map_option (\<lambda>t. t\<lparr>lost := Suc (lost t)\<rparr>) (m i))"

definition retire :: "nat \<Rightarrow> (int \<rightharpoonup> track) \<Rightarrow> (int \<rightharpoonup> track)" where
  "retire max_lost m =
     (\<lambda>i. case m i of None \<Rightarrow> None
                    | Some t \<Rightarrow> if max_lost < lost t then None else Some t)"

definition update_with_detections ::
  "heuristic \<Rightarrow> nat \<Rightarrow> tracker \<Rightarrow> detection list \<Rightarrow> error + detection list \<times> tracker" where
  "update_with_detections h max_lost T detections =
     (case associate h (T\<lparr>tracks := age (tracks T)\<rparr>) detections of
        Inl e \<Rightarrow> Inl e
      | Inr (out, T') \<Rightarrow> Inr (out, T'\<lparr>tracks := retire max_lost (tracks T')\<rparr>))"

text \<open>A Detection without its track identifier.\<close>

definition untracked :: "detection \<Rightarrow> detection" where
  "untracked d = d\<lparr>tracker_id := None\<rparr>"

subsection \<open>The detector, as the specification describes it\<close>

text \<open>
  Modelled from the spec: what the detection model does with the two thresholds is
  not among the sources. The network proposes candidate boxes for a frame. Candidates
  whose score is below the confidence threshold are discarded. Among the remaining
  candidates of one class, taken by decreasing score, a box whose overlap with a box
  already kept exceeds the overlap threshold is suppressed, so that the box with the
  higher confidence is the one kept. The measure of overlap is the network's own.
\<close>

definition suppresses :: "(box \<Rightarrow> box \<Rightarrow> real) \<Rightarrow> real \<Rightarrow> raw_box \<Rightarrow> raw_box \<Rightarrow> bool" where
  "suppresses overlap iou_threshold k r \<longleftrightarrow>
     rb_cls k = rb_cls r \<and> iou_threshold < overlap (rb_xyxy k) (rb_xyxy r)"

fun suppress ::
  "(box \<Rightarrow> box \<Rightarrow> real) \<Rightarrow> real \<Rightarrow> raw_box list \<Rightarrow> raw_box list \<Rightarrow> raw_box list" where
  "suppress overlap iou_threshold kept [] = []"
| "suppress overlap iou_threshold kept (r # rs) =
     (if list_ex (\<lambda>k. suppresses overlap iou_threshold k r) kept
      then suppress overlap iou_threshold kept rs
      else r # suppress overlap iou_threshold (kept @ [r]) rs)"

definition detector_model ::
  "(pixels \<Rightarrow> error + raw_box list) \<Rightarrow> (box \<Rightarrow> box \<Rightarrow> real) \<Rightarrow>
     pixels \<Rightarrow> real \<Rightarrow> real \<Rightarrow> error + raw_box list" where
  "detector_model network overlap px confidence_threshold iou_threshold =
     (case network px of
        Inl e \<Rightarrow> Inl e
      | Inr candidates \<Rightarrow>
          Inr (suppress overlap iou_threshold []
                 (sort_key (\<lambda>r. - rb_conf r)
                    (filter (\<lambda>r. confidence_threshold \<le> rb_conf r) candidates))))"

subsection \<open>Example runs\<close>

text \<open>
  A video of three frames of two bytes each; a network that reports one box of class 2
  on every frame; a tracker that gives every Detection the identifier 1; a drawing
  routine that changes every byte; a user who presses \<^verbatim>\<open>q\<close> at the second poll.
\<close>

definition demo_box :: raw_box where
  "demo_box = \<lparr>rb_xyxy = (10, 20, 50, 80), rb_conf = 9/10, rb_cls = 2\<rparr>"

definition demo_env :: "nat env" where
  "demo_env =
     \<lparr>load_model = None,
      open_video = Inr (\<lparr>width = 2, height = 1, fps = 25, total_frames = 3\<rparr>,
                        [[1, 2], [3, 4], [5, 6]]),
      model = (\<lambda>px c i. Inr [demo_box]),
      tracker_update = (\<lambda>s ds. Inr (map (\<lambda>d. d\<lparr>tracker_id := Some 1\<rparr>) ds, Suc s)),
      draw = (\<lambda>px ds ls. (map (\<lambda>b. b + 1) px, None)),
      sink_enter = (\<lambda>p i. None),
      write_frame = (\<lambda>px. None),
      imshow = (\<lambda>px. None),
      wait_key = (\<lambda>n d. if n = 1 then 113 else - 1)\<rparr>"

definition demo_world :: "nat world" where
  "demo_world = \<lparr>heap = [[1, 2]], tracker_state = 0\<rparr>"

definition demo_detection :: detection where
  "demo_detection = \<lparr>xyxy = (10, 20, 50, 80), confidence = Some (9/10), class_id = Some 0, tracker_id = None\<rparr>"

text \<open>
  The state a run starts in, and a network that raises on the second frame.
\<close>

definition demo_start :: "nat world" where
  "demo_start = \<lparr>heap = [], tracker_state = 0\<rparr>"

definition demo_faulty_env :: "nat env" where
  "demo_faulty_env =
     demo_env\<lparr>model := (\<lambda>px c i. if px = [3, 4] then Inl DetectionFailure else Inr [demo_box])\<rparr>"

text \<open>The calls \<^verbatim>\<open>process_frame\<close> makes in these runs for the frame at address \<open>a\<close>.\<close>

definition demo_tracked :: detection where
  "demo_tracked = demo_detection\<lparr>tracker_id := Some 1\<rparr>"

definition demo_calls :: "addr \<Rightarrow> event list" where
  "demo_calls a =
     [ModelCalled a (3/10) (7/10), TrackerUpdated [demo_detection],
      Annotated (Suc a) [demo_tracked] [''#1'']]"

text \<open>
  A heuristic that starts a Track for a Detection of confidence 0.9, names the Track 7
  for one of confidence 0.5, and finds no Track for any other; three Detections for it.
\<close>

definition demo_heuristic :: heuristic where
  "demo_heuristic m d =
     (if confidence d = Some (9/10) then Inr Spawn
      else if confidence d = Some (1/2) then Inr (Matched 7)
      else Inr Unassociated)"

definition demo_input :: "detection list" where
  "demo_input =
     [\<lparr>xyxy = (0, 0, 1, 1), confidence = Some (1/10), class_id = Some 0, tracker_id = None\<rparr>,
      \<lparr>xyxy = (10, 20, 50, 80), confidence = Some (9/10), class_id = Some 0, tracker_id = None\<rparr>,
      \<lparr>xyxy = (5, 5, 9, 9), confidence = Some (1/2), class_id = Some 0, tracker_id = None\<rparr>]"

text \<open>
  A network that proposes three candidates of one class, two of which overlap, and a
  pipeline whose detection model is the specification's over this network.
\<close>

definition demo_overlap :: "box \<Rightarrow> box \<Rightarrow> real" where
  "demo_overlap a b = (if a = (10, 20, 50, 80) \<and> b = (12, 22, 52, 82) then 8/10 else 0)"

definition demo_network :: "pixels \<Rightarrow> error + raw_box list" where
  "demo_network px =
     Inr [\<lparr>rb_xyxy = (0, 0, 5, 5), rb_conf = 2/10, rb_cls = 2\<rparr>,
          \<lparr>rb_xyxy = (12, 22, 52, 82), rb_conf = 5/10, rb_cls = 2\<rparr>,
          demo_box]"

definition demo_detector_env :: "nat env" where
  "demo_detector_env = demo_env\<lparr>model := detector_model demo_network demo_overlap\<rparr>"

section \<open>Properties\<close>

subsection \<open>What one call of \<^verbatim>\<open>process_frame\<close> does\<close>

lemma set_class_id_zeros:
  "set_class_id ds (zeros (length ds)) = map (\<lambda>d. d\<lparr>class_id := Some 0\<rparr>) ds"
  by (simp add: set_class_id_def zeros_def zip_replicate2 comp_def)

lemma process_frame_cases:
  assumes "process_frame env w frame ct it = (ev, r, w')"
  obtains
    (model_raised) e where
      "model env (heap w ! frame) ct it = Inl e"
      "ev = [ModelCalled frame ct it]" "r = Inl e" "w' = w"
  | (tracker_raised) results e where
      "model env (heap w ! frame) ct it = Inr results"
      "tracker_update env (tracker_state w)
         (map (\<lambda>d. d\<lparr>class_id := Some 0\<rparr>) (from_ultralytics results)) = Inl e"
      "ev = [ModelCalled frame ct it,
             TrackerUpdated (map (\<lambda>d. d\<lparr>class_id := Some 0\<rparr>) (from_ultralytics results))]"
      "r = Inl e" "w' = w"
  | (annotated) results ds T where
      "model env (heap w ! frame) ct it = Inr results"
      "tracker_update env (tracker_state w)
         (map (\<lambda>d. d\<lparr>class_id := Some 0\<rparr>) (from_ultralytics results)) = Inr (ds, T)"
      "ev = [ModelCalled frame ct it,
             TrackerUpdated (map (\<lambda>d. d\<lparr>class_id := Some 0\<rparr>) (from_ultralytics results)),
             Annotated (length (heap w)) ds (make_labels ds)]"
      "r = (case snd (draw env (heap w ! frame) ds (make_labels ds)) of
              None \<Rightarrow> Inr (length (heap w)) | Some e \<Rightarrow> Inl e)"
      "w' = \<lparr>heap = heap w @ [fst (draw env (heap w ! frame) ds (make_labels ds))],
             tracker_state = T\<rparr>"
proof (cases "model env (heap w ! frame) ct it")
  case (Inl e)
  with assms show ?thesis
    by (intro model_raised[of e]) (auto simp: process_frame_def detection_step_def)
next
  case (Inr results)
  let ?ds1 = "map (\<lambda>d. d\<lparr>class_id := Some 0\<rparr>) (from_ultralytics results)"
  show ?thesis
  proof (cases "tracker_update env (tracker_state w) ?ds1")
    case (Inl e)
    with Inr assms show ?thesis
      by (intro tracker_raised[of results e])
         (auto simp: process_frame_def detection_step_def set_class_id_zeros)
  next
    case (Inr p)
    obtain ds T where p: "p = (ds, T)" by (cases p)
    have c: "copy (heap w) frame = (fst (copy (heap w) frame), snd (copy (heap w) frame))"
      by simp
    from Inr p \<open>model env (heap w ! frame) ct it = Inr results\<close> assms show ?thesis
      apply (intro annotated[of results ds T])
      apply (simp_all add: process_frame_def detection_step_def set_class_id_zeros Let_def
          split: prod.splits)
      apply (auto simp: annotate_def copy_def alloc_def split: prod.splits option.splits)
      done
  qed
qed

lemma demo_process_frame:
  "process_frame demo_env demo_world 0 (3/10) (7/10) =
     ([ModelCalled 0 (3/10) (7/10), TrackerUpdated [demo_detection],
       Annotated 1 [demo_detection\<lparr>tracker_id := Some 1\<rparr>] [''#1'']],
      Inr 1, \<lparr>heap = [[1, 2], [2, 3]], tracker_state = 1\<rparr>)"
  by (simp add: process_frame_def detection_step_def demo_env_def demo_world_def demo_box_def
      demo_detection_def from_ultralytics_def set_class_id_def zeros_def make_labels_def
      iter_detections_def format_id_def str_int_def digits.simps copy_def alloc_def annotate_def)

text \<open>
  Claim C2. Whenever the network returns a result for the frame, the tracker's update
  is called with exactly one DetectionSet: the network's boxes, in order, each with its
  class identifier replaced by the single value 0, whatever class the network reported.
\<close>

theorem class_id_overwritten_before_tracking:
  assumes "process_frame env w frame ct it = (ev, r, w')"
    and "model env (heap w ! frame) ct it = Inr results"
  shows "(\<forall>ds. TrackerUpdated ds \<in> set ev \<longleftrightarrow>
            ds = map (\<lambda>d. d\<lparr>class_id := Some 0\<rparr>) (from_ultralytics results)) \<and>
         (\<forall>ds. TrackerUpdated ds \<in> set ev \<longrightarrow> (\<forall>d \<in> set ds. class_id d = Some 0))"
  using assms(1)
proof (cases rule: process_frame_cases)
  case (model_raised e)
  with assms(2) show ?thesis by simp
next
  case (tracker_raised res e)
  with assms(2) show ?thesis by auto
next
  case (annotated res ds T)
  with assms(2) show ?thesis by auto
qed

theorem class_id_overwritten_witness:
  "process_frame demo_env demo_world 0 (3/10) (7/10) =
     ([ModelCalled 0 (3/10) (7/10), TrackerUpdated [demo_detection],
       Annotated 1 [demo_detection\<lparr>tracker_id := Some 1\<rparr>] [''#1'']],
      Inr 1, \<lparr>heap = [[1, 2], [2, 3]], tracker_state = 1\<rparr>) \<and>
   model demo_env (heap demo_world ! 0) (3/10) (7/10) = Inr [demo_box] \<and>
   rb_cls demo_box = 2 \<and>
   TrackerUpdated [demo_detection] \<in> set [ModelCalled 0 (3/10) (7/10), TrackerUpdated [demo_detection],
       Annotated 1 [demo_detection\<lparr>tracker_id := Some 1\<rparr>] [''#1'']] \<and>
   class_id demo_detection = Some 0"
proof -
  have m: "model demo_env (heap demo_world ! 0) (3/10) (7/10) = Inr [demo_box]"
    by (simp add: demo_env_def)
  from class_id_overwritten_before_tracking [OF demo_process_frame m]
  have "class_id demo_detection = Some 0" by simp
  with m demo_process_frame show ?thesis by (simp add: demo_box_def)
qed


text \<open>
  Claim C3. \<^verbatim>\<open>process_frame\<close> leaves the input frame's buffer, and every buffer that
  existed before the call, byte for byte as it was: the annotator draws on a copy, at a
  new address, and that new buffer is the one returned.
\<close>

theorem input_frame_not_mutated:
  assumes "process_frame env w frame ct it = (ev, r, w')"
    and "frame < length (heap w)"
  shows "heap w' ! frame = heap w ! frame \<and>
         take (length (heap w)) (heap w') = heap w \<and>
         (\<forall>scene ds ls. Annotated scene ds ls \<in> set ev \<longrightarrow>
            scene \<noteq> frame \<and> scene = length (heap w) \<and>
            heap w' ! scene = fst (draw env (heap w ! frame) ds ls) \<and>
            (\<forall>a. r = Inr a \<longrightarrow> a = scene))"
  using assms(1)
proof (cases rule: process_frame_cases)
  case (model_raised e)
  then show ?thesis by simp
next
  case (tracker_raised res e)
  then show ?thesis by simp
next
  case (annotated res ds' T)
  with assms(2) show ?thesis
    by (auto simp: nth_append split: option.splits)
qed


theorem input_frame_not_mutated_witness:
  "process_frame demo_env demo_world 0 (3/10) (7/10) =
     ([ModelCalled 0 (3/10) (7/10), TrackerUpdated [demo_detection],
       Annotated 1 [demo_detection\<lparr>tracker_id := Some 1\<rparr>] [''#1'']],
      Inr 1, \<lparr>heap = [[1, 2], [2, 3]], tracker_state = 1\<rparr>) \<and>
   (0::nat) < length (heap demo_world) \<and>
   heap demo_world ! 0 = [1, 2] \<and>
   heap \<lparr>heap = [[1, 2], [2, 3]], tracker_state = 1::nat\<rparr> ! 0 = heap demo_world ! 0 \<and>
   heap \<lparr>heap = [[1, 2], [2, 3]], tracker_state = 1::nat\<rparr> ! 1 = [2, 3]"
proof -
  have l: "(0::nat) < length (heap demo_world)" by (simp add: demo_world_def)
  from input_frame_not_mutated [OF demo_process_frame l]
  have "heap \<lparr>heap = [[1, 2], [2, 3]], tracker_state = 1::nat\<rparr> ! 0 = heap demo_world ! 0"
    by blast
  with l demo_process_frame show ?thesis by (simp add: demo_world_def)
qed

subsection \<open>Runs of \<^verbatim>\<open>process_video\<close>\<close>

lemma stages_simps [simp]:
  "stages [] = []"
  "stages (a # tr) = stage_of a @ stages tr"
  "stages (tr @ tr') = stages tr @ stages tr'"
  by (simp_all add: stages_def)

lemma fetched_append [simp]: "fetched (tr @ tr') = fetched tr @ fetched tr'"
  by (induction tr rule: fetched.induct) simp_all

lemma polls_append [simp]: "polls (tr @ tr') = polls tr @ polls tr'"
  by (induction tr rule: polls.induct) simp_all

lemma shown_append [simp]: "shown (tr @ tr') = shown tr @ shown tr'"
  by (induction tr rule: shown.induct) simp_all

lemma process_frame_events:
  assumes "process_frame env w frame ct it = (ev, r, w')"
  shows "fetched ev = []" "polls ev = []" "shown ev = []"
    "SinkExit \<notin> set ev" "SinkEnter p \<notin> set ev" "WindowsDestroyed \<notin> set ev"
    "(stages ev = [] \<and> (\<exists>e. r = Inl e)) \<or> stages ev = [Update]"
  using assms by (cases rule: process_frame_cases; simp)+

lemma file_loop_step:
  assumes "process_frame env (w\<lparr>heap := heap w @ [px]\<rparr>) (length (heap w)) ct it = (ev, r1, w1)"
  shows "file_loop env w ct it n (px # rest) =
     (case r1 of
        Inl e \<Rightarrow> (FrameFetched n (length (heap w)) # ev, Inl e, w1)
      | Inr a \<Rightarrow>
          (case write_frame env (heap w1 ! a) of
             Some e \<Rightarrow> (FrameFetched n (length (heap w)) # ev @ [FrameWritten a], Inl e, w1)
           | None \<Rightarrow>
               (case file_loop env w1 ct it (Suc n) rest of
                  (ev', r, w2) \<Rightarrow>
                    (FrameFetched n (length (heap w)) # ev @ [FrameWritten a] @ ev', r, w2))))"
  using assms by (simp add: alloc_def split: sum.splits)

lemma display_loop_step:
  assumes "process_frame env (w\<lparr>heap := heap w @ [px]\<rparr>) (length (heap w)) ct it = (ev, r1, w1)"
  shows "display_loop env w ct it n (px # rest) =
     (case r1 of
        Inl e \<Rightarrow> (FrameFetched n (length (heap w)) # ev, Inl e, w1)
      | Inr a \<Rightarrow>
          (case imshow env (heap w1 ! a) of
             Some e \<Rightarrow> (FrameFetched n (length (heap w)) # ev @ [FrameShown a], Inl e, w1)
           | None \<Rightarrow>
               if quit_signal (wait_key env n 1)
               then (FrameFetched n (length (heap w)) # ev @ [FrameShown a, KeyPolled 1],
                     Inr (), w1)
               else
                 (case display_loop env w1 ct it (Suc n) rest of
                    (ev', r, w2) \<Rightarrow>
                      (FrameFetched n (length (heap w)) # ev @ [FrameShown a, KeyPolled 1]
                         @ ev', r, w2))))"
  using assms by (simp add: alloc_def split: sum.splits)

lemma blocks_Suc:
  "concat (map block [n..<n + Suc k]) = block n @ concat (map block [Suc n..<Suc n + k])"
proof -
  have "[n..<n + Suc k] = n # [Suc n..<Suc n + k]"
    by (simp add: upt_conv_Cons)
  then show ?thesis by simp
qed

lemma file_loop_stages:
  assumes "file_loop env w ct it n frames = (tr, r, w')"
  shows "\<exists>k p. k \<le> length frames \<and> stages tr = concat (map block [n..<n + k]) @ p \<and>
           prefix p (block (n + k)) \<and> (r = Inr () \<longrightarrow> p = [] \<and> k = length frames)"
  using assms
proof (induction frames arbitrary: w n tr r w')
  case Nil
  then show ?case by (intro exI[of _ 0] exI[of _ "[]"]) simp
next
  case (Cons px rest)
  obtain ev r1 w1 where
    pf: "process_frame env (w\<lparr>heap := heap w @ [px]\<rparr>) (length (heap w)) ct it = (ev, r1, w1)"
    by (cases "process_frame env (w\<lparr>heap := heap w @ [px]\<rparr>) (length (heap w)) ct it") auto
  note step = file_loop_step [OF pf, of n rest]
  note evs = process_frame_events(7) [OF pf]
  show ?case
  proof (cases r1)
    case (Inl e)
    with step Cons.prems have tr: "tr = FrameFetched n (length (heap w)) # ev" and r: "r = Inl e"
      by simp_all
    from evs have "prefix (Fetch n # stages ev) (block n)"
      by (auto simp: block_def)
    with tr r show ?thesis
      by (intro exI[of _ 0] exI[of _ "Fetch n # stages ev"]) simp
  next
    case (Inr a)
    with evs have upd: "stages ev = [Update]" by auto
    show ?thesis
    proof (cases "write_frame env (heap w1 ! a)")
      case (Some e)
      with Inr step Cons.prems
      have tr: "tr = FrameFetched n (length (heap w)) # ev @ [FrameWritten a]" and r: "r = Inl e"
        by simp_all
      with upd show ?thesis
        by (intro exI[of _ 0] exI[of _ "block n"]) (simp add: block_def)
    next
      case None
      obtain ev' r' w2 where rec: "file_loop env w1 ct it (Suc n) rest = (ev', r', w2)"
        by (cases "file_loop env w1 ct it (Suc n) rest") auto
      with None Inr step Cons.prems
      have tr: "tr = FrameFetched n (length (heap w)) # ev @ [FrameWritten a] @ ev'"
        and r: "r = r'" by simp_all
      from Cons.IH [OF rec] obtain k p where
        k: "k \<le> length rest" "stages ev' = concat (map block [Suc n..<Suc n + k]) @ p"
          "prefix p (block (Suc n + k))" "r' = Inr () \<longrightarrow> p = [] \<and> k = length rest"
        by blast
      have "stages tr = concat (map block [n..<n + Suc k]) @ p"
        unfolding blocks_Suc using tr upd k(2) by (simp add: block_def)
      with k r show ?thesis
        by (intro exI[of _ "Suc k"] exI[of _ p]) simp
    qed
  qed
qed

lemma display_loop_stages:
  assumes "display_loop env w ct it n frames = (tr, r, w')"
  shows "\<exists>k p. k \<le> length frames \<and> stages tr = concat (map block [n..<n + k]) @ p \<and>
           prefix p (block (n + k)) \<and> (r = Inr () \<longrightarrow> p = [])"
  using assms
proof (induction frames arbitrary: w n tr r w')
  case Nil
  then show ?case by (intro exI[of _ 0] exI[of _ "[]"]) simp
next
  case (Cons px rest)
  obtain ev r1 w1 where
    pf: "process_frame env (w\<lparr>heap := heap w @ [px]\<rparr>) (length (heap w)) ct it = (ev, r1, w1)"
    by (cases "process_frame env (w\<lparr>heap := heap w @ [px]\<rparr>) (length (heap w)) ct it") auto
  note step = display_loop_step [OF pf, of n rest]
  note evs = process_frame_events(7) [OF pf]
  show ?case
  proof (cases r1)
    case (Inl e)
    with step Cons.prems have tr: "tr = FrameFetched n (length (heap w)) # ev" and r: "r = Inl e"
      by simp_all
    from evs have "prefix (Fetch n # stages ev) (block n)"
      by (auto simp: block_def)
    with tr r show ?thesis
      by (intro exI[of _ 0] exI[of _ "Fetch n # stages ev"]) simp
  next
    case (Inr a)
    with evs have upd: "stages ev = [Update]" by auto
    show ?thesis
    proof (cases "imshow env (heap w1 ! a)")
      case (Some e)
      with Inr step Cons.prems
      have tr: "tr = FrameFetched n (length (heap w)) # ev @ [FrameShown a]" and r: "r = Inl e"
        by simp_all
      with upd show ?thesis
        by (intro exI[of _ 0] exI[of _ "block n"]) (simp add: block_def)
    next
      case None
      show ?thesis
      proof (cases "quit_signal (wait_key env n 1)")
        case True
        with None Inr step Cons.prems
        have tr: "tr = FrameFetched n (length (heap w)) # ev @ [FrameShown a, KeyPolled 1]"
          by simp
        with upd show ?thesis
          by (intro exI[of _ 1] exI[of _ "[]"]) (simp add: block_def)
      next
        case False
        obtain ev' r' w2 where rec: "display_loop env w1 ct it (Suc n) rest = (ev', r', w2)"
          by (cases "display_loop env w1 ct it (Suc n) rest") auto
        with False None Inr step Cons.prems
        have tr: "tr = FrameFetched n (length (heap w)) # ev @ [FrameShown a, KeyPolled 1] @ ev'"
          and r: "r = r'" by simp_all
        from Cons.IH [OF rec] obtain k p where
          k: "k \<le> length rest" "stages ev' = concat (map block [Suc n..<Suc n + k]) @ p"
            "prefix p (block (Suc n + k))" "r' = Inr () \<longrightarrow> p = []"
          by blast
        have "stages tr = concat (map block [n..<n + Suc k]) @ p"
          unfolding blocks_Suc using tr upd k(2) by (simp add: block_def)
        with k r show ?thesis
          by (intro exI[of _ "Suc k"] exI[of _ p]) simp
      qed
    qed
  qed
qed

lemma low_byte: "(key::int) AND 0xFF = key mod 256"
proof -
  have "key AND 0xFF = take_bit 8 key"
    by (simp add: take_bit_eq_mask mask_eq_exp_minus_1)
  then show ?thesis by (simp add: take_bit_eq_mod)
qed

lemma quit_signal_iff: "quit_signal key \<longleftrightarrow> key mod 256 = 113"
  by (simp add: quit_signal_def low_byte)

lemmas demo_defs =
  process_video_def with_video_sink_def process_frame_def detection_step_def
  demo_env_def demo_faulty_env_def demo_start_def demo_box_def demo_detection_def
  demo_tracked_def demo_calls_def from_ultralytics_def set_class_id_def zeros_def
  make_labels_def iter_detections_def format_id_def str_int_def digits.simps
  copy_def alloc_def annotate_def quit_signal_iff

lemma demo_file_run:
  "process_video demo_env demo_start (Some ''out.mp4'') (3/10) (7/10) =
     (SinkEnter ''out.mp4'' #
        FrameFetched 0 0 # demo_calls 0 @ FrameWritten 1 #
        FrameFetched 1 2 # demo_calls 2 @ FrameWritten 3 #
        FrameFetched 2 4 # demo_calls 4 @ [FrameWritten 5, SinkExit],
      Inr (),
      \<lparr>heap = [[1, 2], [2, 3], [3, 4], [4, 5], [5, 6], [6, 7]], tracker_state = 3\<rparr>)"
  by (simp add: demo_defs)

lemma demo_display_run:
  "process_video demo_env demo_start None (3/10) (7/10) =
     (FrameFetched 0 0 # demo_calls 0 @ FrameShown 1 # KeyPolled 1 #
        FrameFetched 1 2 # demo_calls 2 @ [FrameShown 3, KeyPolled 1, WindowsDestroyed],
      Inr (),
      \<lparr>heap = [[1, 2], [2, 3], [3, 4], [4, 5]], tracker_state = 2\<rparr>)"
  by (simp add: demo_defs)

lemma demo_faulty_file_run:
  "process_video demo_faulty_env demo_start (Some ''out.mp4'') (3/10) (7/10) =
     (SinkEnter ''out.mp4'' #
        FrameFetched 0 0 # demo_calls 0 @
        [FrameWritten 1, FrameFetched 1 2, ModelCalled 2 (3/10) (7/10), SinkExit],
      Inl DetectionFailure,
      \<lparr>heap = [[1, 2], [2, 3], [3, 4]], tracker_state = 1\<rparr>)"
  by (simp add: demo_defs)

lemma demo_faulty_display_run:
  "process_video demo_faulty_env demo_start None (3/10) (7/10) =
     (FrameFetched 0 0 # demo_calls 0 @
        [FrameShown 1, KeyPolled 1, FrameFetched 1 2, ModelCalled 2 (3/10) (7/10)],
      Inl DetectionFailure,
      \<lparr>heap = [[1, 2], [2, 3], [3, 4]], tracker_state = 1\<rparr>)"
  by (simp add: demo_defs)

lemma file_loop_events:
  assumes "file_loop env w ct it n frames = (tr, r, w')"
  shows "SinkExit \<notin> set tr \<and> (\<forall>p. SinkEnter p \<notin> set tr)"
  using assms
proof (induction frames arbitrary: w n tr r w')
  case Nil
  then show ?case by simp
next
  case (Cons px rest)
  obtain ev r1 w1 where
    pf: "process_frame env (w\<lparr>heap := heap w @ [px]\<rparr>) (length (heap w)) ct it = (ev, r1, w1)"
    by (cases "process_frame env (w\<lparr>heap := heap w @ [px]\<rparr>) (length (heap w)) ct it") auto
  note step = file_loop_step [OF pf, of n rest]
  note evs = process_frame_events(4,5) [OF pf]
  obtain ev' r' w2 where rec: "file_loop env w1 ct it (Suc n) rest = (ev', r', w2)"
    by (cases "file_loop env w1 ct it (Suc n) rest") auto
  from Cons.IH [OF rec] Cons.prems evs show ?case
    unfolding step rec by (auto split: sum.splits option.splits)
qed

lemma display_loop_events:
  assumes "display_loop env w ct it n frames = (tr, r, w')"
  shows "WindowsDestroyed \<notin> set tr"
  using assms
proof (induction frames arbitrary: w n tr r w')
  case Nil
  then show ?case by simp
next
  case (Cons px rest)
  obtain ev r1 w1 where
    pf: "process_frame env (w\<lparr>heap := heap w @ [px]\<rparr>) (length (heap w)) ct it = (ev, r1, w1)"
    by (cases "process_frame env (w\<lparr>heap := heap w @ [px]\<rparr>) (length (heap w)) ct it") auto
  note step = display_loop_step [OF pf, of n rest]
  note evs = process_frame_events(6) [OF pf]
  obtain ev' r' w2 where rec: "display_loop env w1 ct it (Suc n) rest = (ev', r', w2)"
    by (cases "display_loop env w1 ct it (Suc n) rest") auto
  from Cons.IH [OF rec] Cons.prems evs show ?case
    unfolding step rec by (auto split: sum.splits option.splits if_splits)
qed

lemma frames_succeed_step:
  assumes "process_frame env (w\<lparr>heap := heap w @ [px]\<rparr>) (length (heap w)) ct it = (ev, r1, w1)"
  shows "frames_succeed env w ct it k (px # rest) =
     (case r1 of
        Inl e \<Rightarrow> False
      | Inr a \<Rightarrow>
          imshow env (heap w1 ! a) = None \<and>
          (case k of 0 \<Rightarrow> True | Suc k' \<Rightarrow> frames_succeed env w1 ct it k' rest))"
  using assms by (simp add: alloc_def split: sum.splits)

lemma reliable_frames_succeed:
  assumes "reliable env" and "k < length frames"
  shows "frames_succeed env w ct it k frames"
  using assms(2)
proof (induction frames arbitrary: w k)
  case Nil
  then show ?case by simp
next
  case (Cons px rest)
  obtain ev r1 w1 where
    pf: "process_frame env (w\<lparr>heap := heap w @ [px]\<rparr>) (length (heap w)) ct it = (ev, r1, w1)"
    by (cases "process_frame env (w\<lparr>heap := heap w @ [px]\<rparr>) (length (heap w)) ct it") auto
  from pf have "\<exists>a. r1 = Inr a"
  proof (cases rule: process_frame_cases)
    case (model_raised e)
    moreover from assms(1) obtain res where
      "model env (heap (w\<lparr>heap := heap w @ [px]\<rparr>) ! length (heap w)) ct it = Inr res"
      unfolding reliable_def by blast
    ultimately show ?thesis by simp
  next
    case (tracker_raised results e)
    moreover from assms(1) obtain out where
      "tracker_update env (tracker_state (w\<lparr>heap := heap w @ [px]\<rparr>))
         (map (\<lambda>d. d\<lparr>class_id := Some 0\<rparr>) (from_ultralytics results)) = Inr out"
      unfolding reliable_def by blast
    ultimately show ?thesis by simp
  next
    case (annotated results ds T)
    with assms(1) show ?thesis by (simp add: reliable_def)
  qed
  then obtain a where a: "r1 = Inr a" ..
  from assms(1) have "imshow env (heap w1 ! a) = None" by (simp add: reliable_def)
  with a Cons show ?case
    unfolding frames_succeed_step [OF pf] by (cases k) simp_all
qed


lemma process_video_display:
  assumes "load_model env = None" and "open_video env = Inr (info, frames)"
    and "\<not> (\<exists>c cs. target = Some (c # cs))"
  shows "process_video env w target ct it =
           (case display_loop env w ct it 0 frames of
              (ev, Inl e, w1) \<Rightarrow> (ev, Inl e, w1)
            | (ev, Inr u, w1) \<Rightarrow> (ev @ [WindowsDestroyed], Inr u, w1))"
  using assms by (auto simp: process_video_def split: option.splits list.splits)

lemma updates_append [simp]: "updates (tr @ tr') = updates tr @ updates tr'"
  by (induction tr rule: updates.induct) simp_all

lemma process_frame_updates:
  assumes "process_frame env w frame ct it = (ev, r, w')"
  shows "(updates ev = [] \<and> (\<exists>e. r = Inl e)) \<or>
         (\<exists>ds. updates ev = [ds] \<and> tracker_input env ct it (heap w ! frame) = Inr ds)"
  using assms
  by (cases rule: process_frame_cases)
     (simp_all add: tracker_input_def detection_step_def set_class_id_zeros)

lemma file_loop_updates:
  assumes "file_loop env w ct it n frames = (tr, r, w')"
  shows "map Inr (updates tr) = map (tracker_input env ct it) (take (length (updates tr)) frames)"
  using assms
proof (induction frames arbitrary: w n tr r w')
  case Nil
  then show ?case by simp
next
  case (Cons px rest)
  obtain ev r1 w1 where
    pf: "process_frame env (w\<lparr>heap := heap w @ [px]\<rparr>) (length (heap w)) ct it = (ev, r1, w1)"
    by (cases "process_frame env (w\<lparr>heap := heap w @ [px]\<rparr>) (length (heap w)) ct it") auto
  note step = file_loop_step [OF pf, of n rest]
  from process_frame_updates [OF pf]
  have upd: "(updates ev = [] \<and> (\<exists>e. r1 = Inl e)) \<or>
             (\<exists>ds. updates ev = [ds] \<and> tracker_input env ct it px = Inr ds)"
    by simp
  show ?case
  proof (cases r1)
    case (Inl e)
    with step Cons.prems have "tr = FrameFetched n (length (heap w)) # ev" by simp
    with upd show ?thesis by auto
  next
    case (Inr a)
    with upd obtain ds where ds: "updates ev = [ds]" "tracker_input env ct it px = Inr ds"
      by auto
    show ?thesis
    proof (cases "write_frame env (heap w1 ! a)")
      case (Some e)
      with Inr step Cons.prems
      have "tr = FrameFetched n (length (heap w)) # ev @ [FrameWritten a]" by simp
      with ds show ?thesis by simp
    next
      case None
      obtain ev' r' w2 where rec: "file_loop env w1 ct it (Suc n) rest = (ev', r', w2)"
        by (cases "file_loop env w1 ct it (Suc n) rest") auto
      with None Inr step Cons.prems
      have "tr = FrameFetched n (length (heap w)) # ev @ [FrameWritten a] @ ev'" by simp
      with ds Cons.IH [OF rec] show ?thesis by simp
    qed
  qed
qed

lemma display_loop_updates:
  assumes "display_loop env w ct it n frames = (tr, r, w')"
  shows "map Inr (updates tr) = map (tracker_input env ct it) (take (length (updates tr)) frames)"
  using assms
proof (induction frames arbitrary: w n tr r w')
  case Nil
  then show ?case by simp
next
  case (Cons px rest)
  obtain ev r1 w1 where
    pf: "process_frame env (w\<lparr>heap := heap w @ [px]\<rparr>) (length (heap w)) ct it = (ev, r1, w1)"
    by (cases "process_frame env (w\<lparr>heap := heap w @ [px]\<rparr>) (length (heap w)) ct it") auto
  note step = display_loop_step [OF pf, of n rest]
  from process_frame_updates [OF pf]
  have upd: "(updates ev = [] \<and> (\<exists>e. r1 = Inl e)) \<or>
             (\<exists>ds. updates ev = [ds] \<and> tracker_input env ct it px = Inr ds)"
    by simp
  show ?case
  proof (cases r1)
    case (Inl e)
    with step Cons.prems have "tr = FrameFetched n (length (heap w)) # ev" by simp
    with upd show ?thesis by auto
  next
    case (Inr a)
    with upd obtain ds where ds: "updates ev = [ds]" "tracker_input env ct it px = Inr ds"
      by auto
    show ?thesis
    proof (cases "imshow env (heap w1 ! a)")
      case (Some e)
      with Inr step Cons.prems
      have "tr = FrameFetched n (length (heap w)) # ev @ [FrameShown a]" by simp
      with ds show ?thesis by simp
    next
      case None
      show ?thesis
      proof (cases "quit_signal (wait_key env n 1)")
        case True
        with None Inr step Cons.prems
        have "tr = FrameFetched n (length (heap w)) # ev @ [FrameShown a, KeyPolled 1]"
          by simp
        with ds show ?thesis by simp
      next
        case False
        obtain ev' r' w2 where rec: "display_loop env w1 ct it (Suc n) rest = (ev', r', w2)"
          by (cases "display_loop env w1 ct it (Suc n) rest") auto
        with False None Inr step Cons.prems
        have "tr = FrameFetched n (length (heap w)) # ev @ [FrameShown a, KeyPolled 1] @ ev'"
          by simp
        with ds Cons.IH [OF rec] show ?thesis by simp
      qed
    qed
  qed
qed

lemma process_frame_tracker:
  assumes "process_frame env w frame ct it = (ev, Inr a, w')"
  shows "\<exists>ds out. updates ev = [ds] \<and>
           tracker_update env (tracker_state w) ds = Inr (out, tracker_state w')"
  using assms by (cases rule: process_frame_cases) simp_all

lemma file_loop_count:
  assumes "file_loop env w ct it n frames = (tr, Inr (), w')"
  shows "length (updates tr) = length frames \<and>
         tracker_state w' = tracker_after env (tracker_state w) (updates tr)"
  using assms
proof (induction frames arbitrary: w n tr w')
  case Nil
  then show ?case by simp
next
  case (Cons px rest)
  obtain ev r1 w1 where
    pf: "process_frame env (w\<lparr>heap := heap w @ [px]\<rparr>) (length (heap w)) ct it = (ev, r1, w1)"
    by (cases "process_frame env (w\<lparr>heap := heap w @ [px]\<rparr>) (length (heap w)) ct it") auto
  note step = file_loop_step [OF pf, of n rest]
  from Cons.prems obtain a where a: "r1 = Inr a" "write_frame env (heap w1 ! a) = None"
    unfolding step by (auto split: sum.splits option.splits)
  obtain ev' r' w2 where rec: "file_loop env w1 ct it (Suc n) rest = (ev', r', w2)"
    by (cases "file_loop env w1 ct it (Suc n) rest") auto
  with a Cons.prems
  have tr: "tr = FrameFetched n (length (heap w)) # ev @ [FrameWritten a] @ ev'"
    and r: "r' = Inr ()" and "w2 = w'"
    unfolding step by simp_all
  from process_frame_tracker [OF pf [unfolded a(1)]] obtain ds out where
    ds: "updates ev = [ds]" "tracker_update env (tracker_state w) ds = Inr (out, tracker_state w1)"
    by auto
  from Cons.IH [OF rec [unfolded r]] ds tr \<open>w2 = w'\<close>
  show ?case by simp
qed

lemma display_loop_normal:
  assumes "display_loop env w ct it n frames = (tr, Inr (), w')"
  shows "\<exists>k. k \<le> length frames \<and> stages tr = concat (map block [n..<n + k]) \<and>
           length (updates tr) = k \<and>
           tracker_state w' = tracker_after env (tracker_state w) (updates tr) \<and>
           (\<forall>j. Suc j < k \<longrightarrow> \<not> quit_signal (wait_key env (n + j) 1)) \<and>
           (k < length frames \<longrightarrow> 0 < k \<and> quit_signal (wait_key env (n + k - 1) 1))"
  using assms
proof (induction frames arbitrary: w n tr w')
  case Nil
  then show ?case by (intro exI[of _ 0]) simp
next
  case (Cons px rest)
  obtain ev r1 w1 where
    pf: "process_frame env (w\<lparr>heap := heap w @ [px]\<rparr>) (length (heap w)) ct it = (ev, r1, w1)"
    by (cases "process_frame env (w\<lparr>heap := heap w @ [px]\<rparr>) (length (heap w)) ct it") auto
  note step = display_loop_step [OF pf, of n rest]
  from Cons.prems obtain a where a: "r1 = Inr a" "imshow env (heap w1 ! a) = None"
    unfolding step by (auto split: sum.splits option.splits)
  from process_frame_events(7) [OF pf] a(1) have upd: "stages ev = [Update]" by auto
  from process_frame_tracker [OF pf [unfolded a(1)]] obtain ds out where
    ds: "updates ev = [ds]" "tracker_update env (tracker_state w) ds = Inr (out, tracker_state w1)"
    by auto
  show ?case
  proof (cases "quit_signal (wait_key env n 1)")
    case True
    with a Cons.prems
    have tr: "tr = FrameFetched n (length (heap w)) # ev @ [FrameShown a, KeyPolled 1]"
      and "w1 = w'"
      unfolding step by simp_all
    with upd ds True show ?thesis
      by (intro exI[of _ 1]) (simp add: block_def)
  next
    case False
    obtain ev' r' w2 where rec: "display_loop env w1 ct it (Suc n) rest = (ev', r', w2)"
      by (cases "display_loop env w1 ct it (Suc n) rest") auto
    with False a Cons.prems
    have tr: "tr = FrameFetched n (length (heap w)) # ev @ [FrameShown a, KeyPolled 1] @ ev'"
      and r: "r' = Inr ()" and "w2 = w'"
      unfolding step by simp_all
    from Cons.IH [OF rec [unfolded r]] obtain k where
      k: "k \<le> length rest" "stages ev' = concat (map block [Suc n..<Suc n + k])"
        "length (updates ev') = k"
        "tracker_state w2 = tracker_after env (tracker_state w1) (updates ev')"
        "\<forall>j. Suc j < k \<longrightarrow> \<not> quit_signal (wait_key env (Suc n + j) 1)"
        "k < length rest \<longrightarrow> 0 < k \<and> quit_signal (wait_key env (Suc n + k - 1) 1)"
      by blast
    have st: "stages tr = concat (map block [n..<n + Suc k])"
      unfolding blocks_Suc using tr upd k(2) by (simp add: block_def)
    have nq: "\<forall>j. Suc j < Suc k \<longrightarrow> \<not> quit_signal (wait_key env (n + j) 1)"
    proof (intro allI impI)
      fix j assume j: "Suc j < Suc k"
      show "\<not> quit_signal (wait_key env (n + j) 1)"
      proof (cases j)
        case 0
        with False show ?thesis by simp
      next
        case (Suc j')
        with j k(5) have "\<not> quit_signal (wait_key env (Suc n + j') 1)" by simp
        with Suc show ?thesis by simp
      qed
    qed
    have q: "Suc k < length (px # rest) \<longrightarrow>
             0 < Suc k \<and> quit_signal (wait_key env (n + Suc k - 1) 1)"
    proof
      assume "Suc k < length (px # rest)"
      with k(6) have "0 < k" "quit_signal (wait_key env (Suc n + k - 1) 1)" by simp_all
      moreover from \<open>0 < k\<close> have "Suc n + k - 1 = n + Suc k - 1" by simp
      ultimately show "0 < Suc k \<and> quit_signal (wait_key env (n + Suc k - 1) 1)" by simp
    qed
    from tr ds k(1,3,4) st nq q \<open>w2 = w'\<close> show ?thesis
      by (intro exI[of _ "Suc k"]) simp
  qed
qed

text \<open>
  Claim C4. In both variants the fetches, tracker updates and sink calls of a run are,
  in this order, frame 0's fetch, update and sink call, then frame 1's, and so on: one
  update per frame, none skipped and none repeated, and no frame fetched before the
  sink call of the frame before it. The updates follow the order of presentation: the
  i-th update is called with what the detection step yields for the i-th frame of the
  source. A run that returns normally consists of \<open>k\<close> complete passes, and the tracker's
  final state is the result of applying its update to the first \<open>k\<close> frames' Detections
  in turn; in the file variant \<open>k\<close> is the number of frames of the source, and in the
  display variant it is that number unless the poll of frame \<open>k - 1\<close> was the first to
  return the quit key. A run that ends in an exception ends inside the pass of the
  frame on which it was raised.
\<close>

theorem tracker_update_once_per_frame:
  assumes "process_video env w target ct it = (tr, r, w')"
    and "load_model env = None"
    and "open_video env = Inr (info, frames)"
  shows "\<exists>k p. k \<le> length frames \<and>
           stages tr = concat (map block [0..<k]) @ p \<and>
           prefix p (block k) \<and>
           map Inr (updates tr) =
             map (tracker_input env ct it) (take (length (updates tr)) frames) \<and>
           (r = Inr () \<longrightarrow>
              p = [] \<and> length (updates tr) = k \<and>
              tracker_state w' = tracker_after env (tracker_state w) (updates tr) \<and>
              ((\<exists>c cs. target = Some (c # cs)) \<longrightarrow> k = length frames) \<and>
              (target = None \<or> target = Some '''' \<longrightarrow>
                 (\<forall>j. Suc j < k \<longrightarrow> \<not> quit_signal (wait_key env j 1)) \<and>
                 (k < length frames \<longrightarrow> 0 < k \<and> quit_signal (wait_key env (k - 1) 1))))"
proof (cases "\<exists>c cs. target = Some (c # cs)")
  case True
  then obtain c cs where t: "target = Some (c # cs)" by blast
  show ?thesis
  proof (cases "sink_enter env (c # cs) info")
    case (Some e)
    with assms t have "tr = [SinkEnter (c # cs)]" "r = Inl e"
      by (simp_all add: process_video_def with_video_sink_def)
    then show ?thesis
      by (intro exI[of _ 0] exI[of _ "[]"]) simp
  next
    case None
    obtain body r' w2 where loop: "file_loop env w ct it 0 frames = (body, r', w2)"
      by (cases "file_loop env w ct it 0 frames") auto
    with None assms t have tr: "tr = SinkEnter (c # cs) # body @ [SinkExit]" and r: "r = r'"
      and w: "w' = w2"
      by (simp_all add: process_video_def with_video_sink_def)
    from file_loop_stages [OF loop] obtain k p where
      k: "k \<le> length frames" "stages body = concat (map block [0..<0 + k]) @ p"
      "prefix p (block (0 + k))" "r' = Inr () \<longrightarrow> p = [] \<and> k = length frames"
      by blast
    have u: "updates tr = updates body" using tr by simp
    have cnt: "r' = Inr () \<longrightarrow> length (updates body) = k \<and>
                 tracker_state w2 = tracker_after env (tracker_state w) (updates body)"
      using file_loop_count [of env w ct it 0 frames body w2] loop k(4) by auto
    from tr r w k u cnt file_loop_updates [OF loop] t show ?thesis
      by (intro exI[of _ k] exI[of _ p]) simp
  qed
next
  case False
  obtain body r' w2 where loop: "display_loop env w ct it 0 frames = (body, r', w2)"
    by (cases "display_loop env w ct it 0 frames") auto
  with assms(1) have st: "stages tr = stages body" and u: "updates tr = updates body"
    and r: "r = r'" and w: "w' = w2"
    unfolding process_video_display [OF assms(2,3) False]
    by (auto split: sum.splits)
  show ?thesis
  proof (cases "r' = Inr ()")
    case True
    from display_loop_normal [OF loop [unfolded True]] obtain k where
      "k \<le> length frames" "stages body = concat (map block [0..<0 + k])"
      "length (updates body) = k"
      "tracker_state w2 = tracker_after env (tracker_state w) (updates body)"
      "\<forall>j. Suc j < k \<longrightarrow> \<not> quit_signal (wait_key env (0 + j) 1)"
      "k < length frames \<longrightarrow> 0 < k \<and> quit_signal (wait_key env (0 + k - 1) 1)"
      by blast
    with st u r w False display_loop_updates [OF loop] show ?thesis
      by (intro exI[of _ k] exI[of _ "[]"]) simp
  next
    case F: False
    from display_loop_stages [OF loop] obtain k p where
      "k \<le> length frames" "stages body = concat (map block [0..<0 + k]) @ p"
      "prefix p (block (0 + k))"
      by blast
    with st u r F display_loop_updates [OF loop] show ?thesis
      by (intro exI[of _ k] exI[of _ p]) simp
  qed
qed

theorem tracker_update_once_per_frame_witness:
  "process_video demo_env demo_start (Some ''out.mp4'') (3/10) (7/10) =
     (SinkEnter ''out.mp4'' #
        FrameFetched 0 0 # demo_calls 0 @ FrameWritten 1 #
        FrameFetched 1 2 # demo_calls 2 @ FrameWritten 3 #
        FrameFetched 2 4 # demo_calls 4 @ [FrameWritten 5, SinkExit],
      Inr (),
      \<lparr>heap = [[1, 2], [2, 3], [3, 4], [4, 5], [5, 6], [6, 7]], tracker_state = 3\<rparr>) \<and>
   process_video demo_env demo_start None (3/10) (7/10) =
     (FrameFetched 0 0 # demo_calls 0 @ FrameShown 1 # KeyPolled 1 #
        FrameFetched 1 2 # demo_calls 2 @ [FrameShown 3, KeyPolled 1, WindowsDestroyed],
      Inr (),
      \<lparr>heap = [[1, 2], [2, 3], [3, 4], [4, 5]], tracker_state = 2\<rparr>) \<and>
   load_model demo_env = None \<and>
   open_video demo_env =
     Inr (\<lparr>width = 2, height = 1, fps = 25, total_frames = 3\<rparr>, [[1, 2], [3, 4], [5, 6]]) \<and>
   stages (SinkEnter ''out.mp4'' #
        FrameFetched 0 0 # demo_calls 0 @ FrameWritten 1 #
        FrameFetched 1 2 # demo_calls 2 @ FrameWritten 3 #
        FrameFetched 2 4 # demo_calls 4 @ [FrameWritten 5, SinkExit])
     = concat (map block [0..<3]) \<and>
   stages (FrameFetched 0 0 # demo_calls 0 @ FrameShown 1 # KeyPolled 1 #
        FrameFetched 1 2 # demo_calls 2 @ [FrameShown 3, KeyPolled 1, WindowsDestroyed])
     = concat (map block [0..<2]) \<and>
   quit_signal (wait_key demo_env 1 1) \<and> \<not> quit_signal (wait_key demo_env 0 1) \<and>
   concat (map block [0..<3]) =
     [Fetch 0, Update, Sink, Fetch 1, Update, Sink, Fetch 2, Update, Sink] \<and>
   map (tracker_input demo_env (3/10) (7/10)) [[1, 2], [3, 4], [5, 6]] =
     [Inr [demo_detection], Inr [demo_detection], Inr [demo_detection]]"
proof -
  let ?F = "SinkEnter ''out.mp4'' #
        FrameFetched 0 0 # demo_calls 0 @ FrameWritten 1 #
        FrameFetched 1 2 # demo_calls 2 @ FrameWritten 3 #
        FrameFetched 2 4 # demo_calls 4 @ [FrameWritten 5, SinkExit]"
  let ?D = "FrameFetched 0 0 # demo_calls 0 @ FrameShown 1 # KeyPolled 1 #
        FrameFetched 1 2 # demo_calls 2 @ [FrameShown 3, KeyPolled 1, WindowsDestroyed]"
  have l: "load_model demo_env = None" by (simp add: demo_env_def)
  have s: "open_video demo_env =
     Inr (\<lparr>width = 2, height = 1, fps = 25, total_frames = 3\<rparr>, [[1, 2], [3, 4], [5, 6]])"
    by (simp add: demo_env_def)
  have b: "concat (map block [0..<3]) =
     [Fetch 0, Update, Sink, Fetch 1, Update, Sink, Fetch 2, Update, Sink]"
    by (simp add: upt_conv_Cons block_def)
  have q: "quit_signal (wait_key demo_env 1 1)" "\<not> quit_signal (wait_key demo_env 0 1)"
    by (simp_all add: quit_signal_iff demo_env_def)
  have ti: "map (tracker_input demo_env (3/10) (7/10)) [[1, 2], [3, 4], [5, 6]] =
     [Inr [demo_detection], Inr [demo_detection], Inr [demo_detection]]"
    by (simp add: tracker_input_def detection_step_def demo_env_def demo_box_def
        demo_detection_def from_ultralytics_def set_class_id_def zeros_def)
  from tracker_update_once_per_frame [OF demo_file_run l s] obtain k p where
    "stages ?F = concat (map block [0..<k]) @ p" "p = []" "length (updates ?F) = k"
    by blast
  moreover have "length (updates ?F) = 3" by (simp add: demo_calls_def)
  ultimately have f: "stages ?F = concat (map block [0..<3])" by simp
  from tracker_update_once_per_frame [OF demo_display_run l s] obtain k' p' where
    "stages ?D = concat (map block [0..<k']) @ p'" "p' = []" "length (updates ?D) = k'"
    by blast
  moreover have "length (updates ?D) = 2" by (simp add: demo_calls_def)
  ultimately have d: "stages ?D = concat (map block [0..<2])" by simp
  from l s b q ti f d demo_file_run demo_display_run show ?thesis by blast
qed

text \<open>
  Claim C5. In the file variant, once the video writer has been acquired, the list of
  calls of the run ends with its release, whatever the frame loop did: \<open>r\<close> is the
  loop's outcome, the exception of any stage or a normal end, and it is passed on.
\<close>

theorem sink_released_on_every_exit:
  assumes "process_video env w (Some (c # cs)) ct it = (tr, r, w')"
    and "load_model env = None"
    and "open_video env = Inr (info, frames)"
    and "sink_enter env (c # cs) info = None"
  shows "\<exists>body. tr = SinkEnter (c # cs) # body @ [SinkExit] \<and>
           SinkExit \<notin> set body \<and> (\<forall>p. SinkEnter p \<notin> set body) \<and>
           file_loop env w ct it 0 frames = (body, r, w')"
proof -
  obtain body r' w2 where loop: "file_loop env w ct it 0 frames = (body, r', w2)"
    by (cases "file_loop env w ct it 0 frames") auto
  with assms have "tr = SinkEnter (c # cs) # body @ [SinkExit]" "r = r'" "w' = w2"
    by (simp_all add: process_video_def with_video_sink_def)
  with file_loop_events [OF loop] loop show ?thesis by blast
qed

theorem sink_released_witness:
  "process_video demo_faulty_env demo_start (Some ''out.mp4'') (3/10) (7/10) =
     (SinkEnter ''out.mp4'' #
        FrameFetched 0 0 # demo_calls 0 @
        [FrameWritten 1, FrameFetched 1 2, ModelCalled 2 (3/10) (7/10), SinkExit],
      Inl DetectionFailure,
      \<lparr>heap = [[1, 2], [2, 3], [3, 4]], tracker_state = 1\<rparr>) \<and>
   load_model demo_faulty_env = None \<and>
   open_video demo_faulty_env =
     Inr (\<lparr>width = 2, height = 1, fps = 25, total_frames = 3\<rparr>, [[1, 2], [3, 4], [5, 6]]) \<and>
   sink_enter demo_faulty_env ''out.mp4''
     \<lparr>width = 2, height = 1, fps = 25, total_frames = 3\<rparr> = None \<and>
   (\<exists>body. SinkEnter ''out.mp4'' #
        FrameFetched 0 0 # demo_calls 0 @
        [FrameWritten 1, FrameFetched 1 2, ModelCalled 2 (3/10) (7/10), SinkExit]
      = SinkEnter ''out.mp4'' # body @ [SinkExit] \<and> SinkExit \<notin> set body)"
proof -
  have l: "load_model demo_faulty_env = None" by (simp add: demo_faulty_env_def demo_env_def)
  have s: "open_video demo_faulty_env =
     Inr (\<lparr>width = 2, height = 1, fps = 25, total_frames = 3\<rparr>, [[1, 2], [3, 4], [5, 6]])"
    by (simp add: demo_faulty_env_def demo_env_def)
  have e: "sink_enter demo_faulty_env ''out.mp4''
     \<lparr>width = 2, height = 1, fps = 25, total_frames = 3\<rparr> = None"
    by (simp add: demo_faulty_env_def demo_env_def)
  from sink_released_on_every_exit [OF demo_faulty_file_run l s e]
  have "\<exists>body. SinkEnter ''out.mp4'' #
        FrameFetched 0 0 # demo_calls 0 @
        [FrameWritten 1, FrameFetched 1 2, ModelCalled 2 (3/10) (7/10), SinkExit]
      = SinkEnter ''out.mp4'' # body @ [SinkExit] \<and> SinkExit \<notin> set body"
    by blast
  with l s e demo_faulty_file_run show ?thesis by simp
qed



text \<open>
  Claim C10. The quit test holds exactly for the key codes whose low byte is 113, the
  character \<^verbatim>\<open>q\<close>; it fails for \<open>-1\<close>, the code for no key. After a frame has been shown,
  the loop ends when the poll's key code passes the test and goes on to the next frame
  otherwise.
\<close>

theorem quit_signal_is_low_byte_q:
  assumes "process_frame env (w\<lparr>heap := heap w @ [px]\<rparr>) (length (heap w)) ct it
             = (ev, Inr a, w1)"
    and "imshow env (heap w1 ! a) = None"
  shows "(\<forall>key. quit_signal key \<longleftrightarrow> key mod 256 = 113) \<and>
         of_char CHR ''q'' = (113::int) \<and>
         \<not> quit_signal (- 1) \<and>
         display_loop env w ct it n (px # rest) =
           (if wait_key env n 1 mod 256 = 113
            then (FrameFetched n (length (heap w)) # ev @ [FrameShown a, KeyPolled 1],
                  Inr (), w1)
            else (case display_loop env w1 ct it (Suc n) rest of
                    (ev', r, w2) \<Rightarrow>
                      (FrameFetched n (length (heap w)) # ev @ [FrameShown a, KeyPolled 1]
                         @ ev', r, w2)))"
  unfolding display_loop_step [OF assms(1)] using assms(2)
  by (simp add: quit_signal_iff)

text \<open>
  Claim C6, evaluated on a run in which the network raises on the second frame. The
  error reaches the caller in both variants. In the file variant the sink is released
  first; in the display variant \<^verbatim>\<open>cv2.destroyAllWindows\<close> is never called.
\<close>

theorem display_error_skips_teardown:
  "process_video demo_faulty_env demo_start None (3/10) (7/10) =
     (FrameFetched 0 0 # demo_calls 0 @
        [FrameShown 1, KeyPolled 1, FrameFetched 1 2, ModelCalled 2 (3/10) (7/10)],
      Inl DetectionFailure,
      \<lparr>heap = [[1, 2], [2, 3], [3, 4]], tracker_state = 1\<rparr>) \<and>
   WindowsDestroyed \<notin> set (FrameFetched 0 0 # demo_calls 0 @
        [FrameShown 1, KeyPolled 1, FrameFetched 1 2, ModelCalled 2 (3/10) (7/10)]) \<and>
   fst (process_video demo_faulty_env demo_start (Some ''out.mp4'') (3/10) (7/10)) =
     SinkEnter ''out.mp4'' # FrameFetched 0 0 # demo_calls 0 @
        [FrameWritten 1, FrameFetched 1 2, ModelCalled 2 (3/10) (7/10), SinkExit]"
  by (simp add: demo_faulty_display_run demo_faulty_file_run) (simp add: demo_calls_def)

lemma display_error_never_tears_down:
  assumes "process_video env w target ct it = (tr, Inl e, w')"
    and "target = None \<or> target = Some ''''"
  shows "WindowsDestroyed \<notin> set tr"
proof (cases "load_model env")
  case (Some e')
  with assms(1) show ?thesis by (simp add: process_video_def)
next
  case None
  show ?thesis
  proof (cases "open_video env")
    case (Inl e')
    with None assms(1) show ?thesis by (simp add: process_video_def)
  next
    case (Inr p)
    obtain info frames where p: "p = (info, frames)" by (cases p)
    from assms(2) have t: "\<not> (\<exists>c cs. target = Some (c # cs))" by auto
    obtain body r' w2 where loop: "display_loop env w ct it 0 frames = (body, r', w2)"
      by (cases "display_loop env w ct it 0 frames") auto
    from assms(1) loop have "tr = body"
      unfolding process_video_display [OF None Inr [unfolded p] t]
      by (auto split: sum.splits)
    with display_loop_events [OF loop] show ?thesis by simp
  qed
qed

theorem quit_signal_witness:
  "process_frame demo_env (demo_start\<lparr>heap := heap demo_start @ [[1, 2]]\<rparr>)
       (length (heap demo_start)) (3/10) (7/10)
     = (demo_calls 0, Inr 1, \<lparr>heap = [[1, 2], [2, 3]], tracker_state = 1\<rparr>) \<and>
   imshow demo_env (heap \<lparr>heap = [[1, 2], [2, 3]], tracker_state = 1::nat\<rparr> ! 1) = None \<and>
   wait_key demo_env 0 1 = - 1 \<and> \<not> quit_signal (- 1) \<and> quit_signal 113 \<and>
   \<not> quit_signal 81 \<and> quit_signal 1048689 \<and>
   display_loop demo_env demo_start (3/10) (7/10) 0 [[1, 2], [3, 4], [5, 6]] =
     (case display_loop demo_env \<lparr>heap = [[1, 2], [2, 3]], tracker_state = 1\<rparr>
             (3/10) (7/10) 1 [[3, 4], [5, 6]] of
        (ev', r, w2) \<Rightarrow>
          (FrameFetched 0 0 # demo_calls 0 @ [FrameShown 1, KeyPolled 1] @ ev', r, w2))"
proof -
  have pf: "process_frame demo_env (demo_start\<lparr>heap := heap demo_start @ [[1, 2]]\<rparr>)
       (length (heap demo_start)) (3/10) (7/10)
     = (demo_calls 0, Inr 1, \<lparr>heap = [[1, 2], [2, 3]], tracker_state = 1\<rparr>)"
    by (simp add: demo_defs)
  have sh: "imshow demo_env (heap \<lparr>heap = [[1, 2], [2, 3]], tracker_state = 1::nat\<rparr> ! 1) = None"
    by (simp add: demo_env_def)
  have key: "wait_key demo_env 0 1 = - 1" by (simp add: demo_env_def)
  note low = quit_signal_is_low_byte_q [OF pf sh, of 0 "[[3, 4], [5, 6]]"]
  from low have q: "\<not> quit_signal (- 1)" "quit_signal 113" "\<not> quit_signal 81"
    "quit_signal 1048689"
    by simp_all
  from low key
  have "display_loop demo_env demo_start (3/10) (7/10) 0 [[1, 2], [3, 4], [5, 6]] =
     (case display_loop demo_env \<lparr>heap = [[1, 2], [2, 3]], tracker_state = 1\<rparr>
             (3/10) (7/10) 1 [[3, 4], [5, 6]] of
        (ev', r, w2) \<Rightarrow>
          (FrameFetched 0 0 # demo_calls 0 @ [FrameShown 1, KeyPolled 1] @ ev', r, w2))"
    by (simp add: demo_start_def)
  with pf sh key q show ?thesis by blast
qed

subsection \<open>The tracker of the specification\<close>

lemma digits_chars: "digits n \<noteq> [] \<and> set (digits n) \<subseteq> set ''0123456789''"
proof (induction n rule: digits.induct)
  case (1 n)
  show ?case
  proof (cases "n < 10")
    case True
    then have "''0123456789'' ! n \<in> set ''0123456789''"
      by (intro nth_mem) simp
    with True show ?thesis by (subst (1 2) digits.simps) simp
  next
    case False
    have "n mod 10 < 10" by simp
    then have "''0123456789'' ! (n mod 10) \<in> set ''0123456789''"
      by (intro nth_mem) simp
    with False 1 show ?thesis by (subst (1 2) digits.simps) simp
  qed
qed

lemma str_int_not_None: "str_int i \<noteq> ''None''"
proof
  assume a: "str_int i = ''None''"
  show False
  proof (cases "i < 0")
    case True
    with a show False by (simp add: str_int_def)
  next
    case False
    with a have "digits (nat i) = ''None''" by (simp add: str_int_def)
    then have "CHR ''N'' \<in> set (digits (nat i))" by simp
    with digits_chars [of "nat i"] show False by auto
  qed
qed

lemma untracked_id [simp]: "untracked (d\<lparr>tracker_id := t\<rparr>) = untracked d"
  by (simp add: untracked_def)

lemma associate_Cons_cases:
  assumes "associate h T (d # ds) = Inr (out, T')"
  obtains (dropped) "associate h T ds = Inr (out, T')"
  | (paired) j T2 out' where
      "out = d\<lparr>tracker_id := Some j\<rparr> # out'"
      "associate h T2 ds = Inr (out', T')"
      "tracks T2 = (tracks T)(j \<mapsto> \<lparr>last_box = xyxy d, lost = 0\<rparr>)"
proof (cases "h (tracks T) d")
  case (Inl e)
  with assms show ?thesis by simp
next
  case (Inr v)
  show ?thesis
  proof (cases v)
    case (Matched i)
    show ?thesis
    proof (cases "tracks T i")
      case None
      with Inr Matched assms show ?thesis by (intro dropped) simp
    next
      case (Some t)
      let ?T2 = "T\<lparr>tracks := (tracks T)(i \<mapsto> \<lparr>last_box = xyxy d, lost = 0\<rparr>)\<rparr>"
      from Some Inr Matched assms obtain out' where
        "associate h ?T2 ds = Inr (out', T')" "out = d\<lparr>tracker_id := Some i\<rparr> # out'"
        by (auto split: sum.splits)
      then show ?thesis by (intro paired [of i out' ?T2]) simp_all
    qed
  next
    case Spawn
    let ?T2 = "T\<lparr>tracks := (tracks T)(counter T \<mapsto> \<lparr>last_box = xyxy d, lost = 0\<rparr>),
                 counter := counter T + 1\<rparr>"
    from Inr Spawn assms obtain out' where
      "associate h ?T2 ds = Inr (out', T')" "out = d\<lparr>tracker_id := Some (counter T)\<rparr> # out'"
      by (auto split: sum.splits)
    then show ?thesis by (intro paired [of "counter T" out' ?T2]) simp_all
  next
    case Unassociated
    with Inr assms show ?thesis by (intro dropped) simp
  qed
qed

lemma associate_keeps_matched:
  assumes "associate h T ds = Inr (out, T')" and "tracks T i = Some t" and "lost t = 0"
  shows "\<exists>t'. tracks T' i = Some t' \<and> lost t' = 0"
  using assms
proof (induction ds arbitrary: T out T' t)
  case Nil
  then show ?case by simp
next
  case (Cons d ds)
  from Cons.prems(1) show ?case
  proof (cases rule: associate_Cons_cases)
    case dropped
    from Cons.IH [OF this Cons.prems(2,3)] show ?thesis .
  next
    case (paired j T2 out')
    from paired(3) Cons.prems(2,3) obtain t2 where "tracks T2 i = Some t2" "lost t2 = 0"
      by (cases "i = j") auto
    from Cons.IH [OF paired(2) this] show ?thesis .
  qed
qed

lemma associate_output:
  assumes "associate h T ds = Inr (out, T')"
  shows "(\<forall>d\<in>set out. \<exists>i t. tracker_id d = Some i \<and> tracks T' i = Some t \<and> lost t = 0) \<and>
         subseq (map untracked out) (map untracked ds)"
  using assms
proof (induction ds arbitrary: T out T')
  case Nil
  then show ?case by simp
next
  case (Cons d ds)
  from Cons.prems show ?case
  proof (cases rule: associate_Cons_cases)
    case dropped
    from Cons.IH [OF this] show ?thesis by auto
  next
    case (paired j T2 out')
    have "tracks T2 j = Some \<lparr>last_box = xyxy d, lost = 0\<rparr>"
      by (simp add: paired(3))
    from associate_keeps_matched [OF paired(2) this]
    obtain t' where "tracks T' j = Some t'" "lost t' = 0" by auto
    with Cons.IH [OF paired(2)] paired(1) show ?thesis by auto
  qed
qed

text \<open>
  Claim C1. Every Detection in the DetectionSet that the tracker's update returns
  carries a track identifier, and it is the identifier of a Track that is live after
  the update. The Detections returned are Detections of the input, in their order: one
  that was paired with no live Track is absent, not passed through without an
  identifier. So no label made from the returned set is \<^verbatim>\<open>#None\<close>.
\<close>

theorem tracker_output_has_identifiers:
  assumes "update_with_detections h max_lost T detections = Inr (out, T')"
  shows "(\<forall>d\<in>set out. \<exists>i. tracker_id d = Some i \<and> tracks T' i \<noteq> None) \<and>
         subseq (map untracked out) (map untracked detections) \<and>
         ''#None'' \<notin> set (make_labels out)"
proof -
  from assms obtain T1 where
    a: "associate h (T\<lparr>tracks := age (tracks T)\<rparr>) detections = Inr (out, T1)"
    and T': "T' = T1\<lparr>tracks := retire max_lost (tracks T1)\<rparr>"
    by (auto simp: update_with_detections_def split: sum.splits)
  note o = associate_output [OF a]
  have live: "\<forall>d\<in>set out. \<exists>i. tracker_id d = Some i \<and> tracks T' i \<noteq> None"
  proof
    fix d assume "d \<in> set out"
    with o obtain i t where "tracker_id d = Some i" "tracks T1 i = Some t" "lost t = 0"
      by blast
    then show "\<exists>i. tracker_id d = Some i \<and> tracks T' i \<noteq> None"
      by (auto simp: T' retire_def)
  qed
  have "''#None'' \<notin> set (make_labels out)"
  proof
    assume "''#None'' \<in> set (make_labels out)"
    then obtain d where d: "d \<in> set out" "''#None'' = CHR ''#'' # format_id (tracker_id d)"
      by (auto simp: make_labels_def iter_detections_def)
    from live d(1) obtain i where "tracker_id d = Some i" by blast
    with d(2) have "str_int i = ''None''" by (simp add: format_id_def)
    with str_int_not_None show False by blast
  qed
  with live o show ?thesis by blast
qed

theorem tracker_output_witness:
  "\<exists>T'. update_with_detections demo_heuristic 30 new_tracker demo_input =
          Inr ([\<lparr>xyxy = (10, 20, 50, 80), confidence = Some (9/10), class_id = Some 0,
                  tracker_id = Some 1\<rparr>], T') \<and>
        tracks T' 1 \<noteq> None \<and>
        make_labels [\<lparr>xyxy = (10, 20, 50, 80), confidence = Some (9/10), class_id = Some 0,
                  tracker_id = Some 1\<rparr>] = [''#1'']"
proof -
  have "\<exists>T'. update_with_detections demo_heuristic 30 new_tracker demo_input =
          Inr ([\<lparr>xyxy = (10, 20, 50, 80), confidence = Some (9/10), class_id = Some 0,
                  tracker_id = Some 1\<rparr>], T')"
    by (simp add: update_with_detections_def demo_heuristic_def demo_input_def new_tracker_def
        age_def)
  then obtain T' where u: "update_with_detections demo_heuristic 30 new_tracker demo_input =
          Inr ([\<lparr>xyxy = (10, 20, 50, 80), confidence = Some (9/10), class_id = Some 0,
                  tracker_id = Some 1\<rparr>], T')" ..
  from tracker_output_has_identifiers [OF u] have "tracks T' 1 \<noteq> None" by simp
  moreover have "make_labels [\<lparr>xyxy = (10, 20, 50, 80), confidence = Some (9/10),
      class_id = Some 0, tracker_id = Some 1\<rparr>] = [''#1'']"
    by (simp add: make_labels_def iter_detections_def format_id_def str_int_def digits.simps)
  ultimately show ?thesis using u by blast
qed

subsection \<open>The detector of the specification\<close>

lemma suppress_append:
  "suppress ov iou kept (xs @ ys) =
     suppress ov iou kept xs @ suppress ov iou (kept @ suppress ov iou kept xs) ys"
  by (induction xs arbitrary: kept) simp_all

lemma filter_sorted_takeWhile:
  "sorted (map f xs) \<Longrightarrow> filter (\<lambda>x. f x \<le> (c::real)) xs = takeWhile (\<lambda>x. f x \<le> c) xs"
proof (induction xs)
  case Nil
  then show ?case by simp
next
  case (Cons x xs)
  show ?case
  proof (cases "f x \<le> c")
    case True
    with Cons show ?thesis by simp
  next
    case False
    with Cons.prems have "\<forall>y\<in>set xs. \<not> f y \<le> c" by auto
    with False show ?thesis by (simp add: filter_empty_conv)
  qed
qed

lemma candidates_prefix:
  assumes "t1 < (t2::real)"
  shows "\<exists>rest. sort_key (\<lambda>r. - rb_conf r) (filter (\<lambda>r. t1 \<le> rb_conf r) cands) =
                 sort_key (\<lambda>r. - rb_conf r) (filter (\<lambda>r. t2 \<le> rb_conf r) cands) @ rest"
proof -
  let ?f = "\<lambda>r. - rb_conf r"
  let ?L = "sort_key ?f cands"
  have s: "sorted (map ?f ?L)" by simp
  have p: "(\<lambda>r. t \<le> rb_conf r) = (\<lambda>r. ?f r \<le> - t)" for t by auto
  have f2: "filter (\<lambda>r. t2 \<le> rb_conf r) ?L = takeWhile (\<lambda>r. t2 \<le> rb_conf r) ?L"
    unfolding p [of t2] using s by (rule filter_sorted_takeWhile)
  have "filter (\<lambda>r. t1 \<le> rb_conf r) ?L =
        filter (\<lambda>r. t1 \<le> rb_conf r)
          (takeWhile (\<lambda>r. t2 \<le> rb_conf r) ?L @ dropWhile (\<lambda>r. t2 \<le> rb_conf r) ?L)"
    by simp
  also have "\<dots> = filter (\<lambda>r. t1 \<le> rb_conf r) (takeWhile (\<lambda>r. t2 \<le> rb_conf r) ?L) @
        filter (\<lambda>r. t1 \<le> rb_conf r) (dropWhile (\<lambda>r. t2 \<le> rb_conf r) ?L)"
    by (rule filter_append)
  also have "filter (\<lambda>r. t1 \<le> rb_conf r) (takeWhile (\<lambda>r. t2 \<le> rb_conf r) ?L) =
        takeWhile (\<lambda>r. t2 \<le> rb_conf r) ?L"
    using assms by (auto simp: filter_id_conv dest!: set_takeWhileD)
  finally have "filter (\<lambda>r. t1 \<le> rb_conf r) ?L =
        filter (\<lambda>r. t2 \<le> rb_conf r) ?L @
        filter (\<lambda>r. t1 \<le> rb_conf r) (dropWhile (\<lambda>r. t2 \<le> rb_conf r) ?L)"
    by (simp add: f2)
  then show ?thesis by (auto simp: filter_sort)
qed

lemma detector_model_prefix:
  assumes "t1 < t2"
  shows "(\<exists>e. detector_model network overlap px t1 iou = Inl e \<and>
              detector_model network overlap px t2 iou = Inl e) \<or>
         (\<exists>kept more. detector_model network overlap px t2 iou = Inr kept \<and>
              detector_model network overlap px t1 iou = Inr (kept @ more))"
proof (cases "network px")
  case (Inl e)
  then show ?thesis by (simp add: detector_model_def)
next
  case (Inr cands)
  from candidates_prefix [OF assms, of cands] obtain rest where
    "sort_key (\<lambda>r. - rb_conf r) (filter (\<lambda>r. t1 \<le> rb_conf r) cands) =
     sort_key (\<lambda>r. - rb_conf r) (filter (\<lambda>r. t2 \<le> rb_conf r) cands) @ rest" ..
  with Inr show ?thesis
    by (simp add: detector_model_def suppress_append)
qed

text \<open>
  Claim C9. With the detection model of the specification, every Detection that the
  detection step yields for a frame at a confidence threshold is also yielded at any
  lower threshold, for the same frame and overlap threshold.
\<close>

theorem detections_antitone_in_confidence:
  assumes "model env = detector_model network overlap" and "t1 < t2"
  shows "detections_of (detection_step env px t2 iou) \<subseteq>
         detections_of (detection_step env px t1 iou)"
  using detector_model_prefix [OF assms(2), of network overlap px iou] assms(1)
  by (auto simp: detections_of_def detection_step_def from_ultralytics_def)

lemma demo_detections:
  "detection_step demo_detector_env [1, 2] (3/10) (7/10) =
     Inr [\<lparr>xyxy = (10, 20, 50, 80), confidence = Some (9/10), class_id = Some 2,
            tracker_id = None\<rparr>]"
  "detection_step demo_detector_env [1, 2] (1/10) (7/10) =
     Inr [\<lparr>xyxy = (10, 20, 50, 80), confidence = Some (9/10), class_id = Some 2,
            tracker_id = None\<rparr>,
          \<lparr>xyxy = (0, 0, 5, 5), confidence = Some (2/10), class_id = Some 2,
            tracker_id = None\<rparr>]"
  by (simp_all add: detection_step_def demo_detector_env_def demo_env_def detector_model_def
      demo_network_def demo_overlap_def demo_box_def suppresses_def from_ultralytics_def)

theorem detections_antitone_witness:
  "model demo_detector_env = detector_model demo_network demo_overlap \<and>
   (1/10 :: real) < 3/10 \<and>
   detection_step demo_detector_env [1, 2] (3/10) (7/10) =
     Inr [\<lparr>xyxy = (10, 20, 50, 80), confidence = Some (9/10), class_id = Some 2,
            tracker_id = None\<rparr>] \<and>
   detection_step demo_detector_env [1, 2] (1/10) (7/10) =
     Inr [\<lparr>xyxy = (10, 20, 50, 80), confidence = Some (9/10), class_id = Some 2,
            tracker_id = None\<rparr>,
          \<lparr>xyxy = (0, 0, 5, 5), confidence = Some (2/10), class_id = Some 2,
            tracker_id = None\<rparr>] \<and>
   detections_of (detection_step demo_detector_env [1, 2] (3/10) (7/10)) \<subseteq>
   detections_of (detection_step demo_detector_env [1, 2] (1/10) (7/10))"
proof -
  have m: "model demo_detector_env = detector_model demo_network demo_overlap"
    by (simp add: demo_detector_env_def)
  have lt: "(1/10 :: real) < 3/10" by simp
  from detections_antitone_in_confidence [OF m lt, of "[1, 2]" "7/10"] m lt demo_detections
  show ?thesis by blast
qed

end
